theory Spec2Isabelle
  imports Main "HOL-Library.Sublist" "HOL-Library.AList"
begin

section \<open>Python values used by the model\<close>

text \<open>
  A \<^verbatim>\<open>pathlib.Path\<close> is modelled by the list of its components below the
  root: \<^verbatim>\<open>/home/u/a.txt\<close> is \<open>[''home'', ''u'', ''a.txt'']\<close>. All paths
  handled by the four subsystems are absolute.
\<close>

type_synonym path = "string list"

text \<open>A call either returns a value or raises an exception (carried as its name).\<close>

datatype 'a outcome = Returned 'a | Raised string

text \<open>
  Python list indexing \<^verbatim>\<open>xs[i]\<close>: a negative index counts from the end, an
  index outside the list raises \<^verbatim>\<open>IndexError\<close>.
\<close>

definition py_index :: "'a list \<Rightarrow> int \<Rightarrow> string + 'a" where
  "py_index xs i =
     (if 0 \<le> i \<and> i < int (length xs) then Inr (xs ! nat i)
      else if i < 0 \<and> - int (length xs) \<le> i then Inr (xs ! nat (int (length xs) + i))
      else Inl ''IndexError'')"

text \<open>
  Python slicing \<^verbatim>\<open>xs[:k]\<close>: a negative bound counts from the end; bounds
  outside the list are clipped.
\<close>

definition py_slice_to :: "'a list \<Rightarrow> int \<Rightarrow> 'a list" where
  "py_slice_to xs k = (if k < 0 then take (nat (int (length xs) + k)) xs else take (nat k) xs)"


section \<open>Navigation history (\<^verbatim>\<open>FileTab.set_directory\<close>, \<^verbatim>\<open>go_back\<close>, \<^verbatim>\<open>go_forward\<close>)\<close>

text \<open>
  The fields of \<^verbatim>\<open>FileTab\<close> that navigation reads and writes. \<open>status\<close>
  collects the texts emitted on the \<^verbatim>\<open>statusMessage\<close> signal.
\<close>

record tab =
  current_path :: path
  history :: "path list"
  history_index :: int
  status :: "string list"

text \<open>
  What navigation asks of the operating system and of the widgets:
  \<^verbatim>\<open>os.access(path, os.R_OK)\<close> (the flag tells whether
  \<^verbatim>\<open>mount_with_auth\<close> has succeeded just before),
  \<^verbatim>\<open>mount_with_auth\<close>, \<^verbatim>\<open>Path.exists\<close>, \<^verbatim>\<open>Path.resolve\<close>, and
  an exception raised by the widget calls that switch the view, after
  \<^verbatim>\<open>current_path\<close> has been assigned and before the history is updated. The
  two handlers of \<^verbatim>\<open>set_directory\<close> catch it: one for
  \<^verbatim>\<open>PermissionError\<close>, one for any other exception with its text.
\<close>

datatype nav_exception = PermissionError | OtherError string

record nav_env =
  access_r :: "bool \<Rightarrow> path \<Rightarrow> bool"
  mount_with_auth :: "path \<Rightarrow> bool"
  path_exists :: "path \<Rightarrow> bool"
  resolve :: "path \<Rightarrow> path"
  switch_error :: "path \<Rightarrow> nav_exception option"

definition show_path :: "path \<Rightarrow> string" where
  "show_path p = (if p = [] then ''/'' else concat (map (\<lambda>c. ''/'' @ c) p))"

text \<open>\<^verbatim>\<open>str(path).startswith('/dev/') or str(path).startswith('/media/')\<close>\<close>

definition is_device_or_media :: "path \<Rightarrow> bool" where
  "is_device_or_media p = (prefix ''/dev/'' (show_path p) \<or> prefix ''/media/'' (show_path p))"

text \<open>\<^verbatim>\<open>FileTab.__init__\<close>: the history is seeded with the resolved start path.\<close>

definition tab_init :: "nav_env \<Rightarrow> path \<Rightarrow> tab" where
  "tab_init env start_path =
     \<lparr>current_path = resolve env start_path,
      history = [resolve env start_path],
      history_index = 0,
      status = []\<rparr>"

text \<open>
  The block under \<^verbatim>\<open># Actualizar historial\<close> of \<^verbatim>\<open>set_directory\<close>:
  \<^verbatim>\<open>
  if self.history_index < len(self.history) - 1:
      self.history = self.history[:self.history_index + 1]
  self.history.append(self.current_path)
  self.history_index = len(self.history) - 1
  \<close>
\<close>

definition history_push :: "tab \<Rightarrow> tab" where
  "history_push s =
     (let h = (if history_index s < int (length (history s)) - 1
               then py_slice_to (history s) (history_index s + 1)
               else history s);
          h' = h @ [current_path s]
      in s\<lparr>history := h', history_index := int (length h') - 1\<rparr>)"

definition set_directory :: "nav_env \<Rightarrow> path \<Rightarrow> tab \<Rightarrow> tab" where
  "set_directory env p s =
     (if is_device_or_media p \<and> \<not> access_r env False p \<and> \<not> mount_with_auth env p then s
      else
        let mounted = (is_device_or_media p \<and> \<not> access_r env False p) in
        if \<not> access_r env mounted p
        then s\<lparr>status := status s @ [''Error de permisos: '' @ show_path p]\<rparr>
        else if \<not> path_exists env p
        then s\<lparr>status := status s @ [''Ruta no existe'']\<rparr>
        else (case switch_error env p of
                Some PermissionError \<Rightarrow>
                  s\<lparr>current_path := resolve env p,
                    status := status s @ [''Error de permisos: '' @ show_path p]\<rparr>
              | Some (OtherError e) \<Rightarrow>
                  s\<lparr>current_path := resolve env p, status := status s @ [''Error: '' @ e]\<rparr>
              | None \<Rightarrow>
                  history_push
                    (s\<lparr>current_path := resolve env p,
                       status := status s @ [show_path (resolve env p)]\<rparr>)))"

definition go_back :: "nav_env \<Rightarrow> tab \<Rightarrow> bool outcome \<times> tab" where
  "go_back env s =
     (if history_index s > 0 then
        let s1 = s\<lparr>history_index := history_index s - 1\<rparr> in
        (case py_index (history s1) (history_index s1) of
           Inl e \<Rightarrow> (Raised e, s1)
         | Inr p \<Rightarrow>
             (Returned True,
              s1\<lparr>current_path := resolve env p,
                  status := status s1 @ [show_path (resolve env p)]\<rparr>))
      else (Returned False, s))"

definition go_forward :: "nav_env \<Rightarrow> tab \<Rightarrow> bool outcome \<times> tab" where
  "go_forward env s =
     (if history_index s < int (length (history s)) - 1 then
        let s1 = s\<lparr>history_index := history_index s + 1\<rparr> in
        (case py_index (history s1) (history_index s1) of
           Inl e \<Rightarrow> (Raised e, s1)
         | Inr p \<Rightarrow>
             (Returned True,
              s1\<lparr>current_path := resolve env p,
                  status := status s1 @ [show_path (resolve env p)]\<rparr>))
      else (Returned False, s))"

text \<open>The states a tab can be in: created, then any calls of the three operations.\<close>

inductive reachable :: "tab \<Rightarrow> bool" where
  r_init: "reachable (tab_init env start_path)"
| r_push: "reachable s \<Longrightarrow> reachable (set_directory env p s)"
| r_back: "reachable s \<Longrightarrow> reachable (snd (go_back env s))"
| r_forward: "reachable s \<Longrightarrow> reachable (snd (go_forward env s))"

text \<open>A sequence of back and forward calls, for statements about any such sequence.\<close>

datatype nav_call = Back | Forward

fun nav_calls :: "nav_env \<Rightarrow> nav_call list \<Rightarrow> tab \<Rightarrow> tab" where
  "nav_calls env [] s = s"
| "nav_calls env (Back # cs) s = nav_calls env cs (snd (go_back env s))"
| "nav_calls env (Forward # cs) s = nav_calls env cs (snd (go_forward env s))"

definition hist_ok :: "tab \<Rightarrow> bool" where
  "hist_ok s = (history s \<noteq> [] \<and> 0 \<le> history_index s \<and> history_index s < int (length (history s)))"

text \<open>An environment in which every path is readable and exists, already canonical.\<close>

definition plain_env :: nav_env where
  "plain_env =
     \<lparr>access_r = (\<lambda>_ _. True), mount_with_auth = (\<lambda>_. False), path_exists = (\<lambda>_. True),
      resolve = (\<lambda>p. p), switch_error = (\<lambda>_. None)\<rparr>"


section \<open>Device mounting (\<^verbatim>\<open>is_device_mounted\<close>, \<^verbatim>\<open>mount_device\<close>, \<^verbatim>\<open>unmount_device\<close>)\<close>

text \<open>Python's \<^verbatim>\<open>needle in hay\<close> on strings: \<open>needle\<close> occurs somewhere in \<open>hay\<close>.\<close>

fun py_in :: "string \<Rightarrow> string \<Rightarrow> bool" where
  "py_in needle [] = (needle = [])"
| "py_in needle (c # cs) = (prefix needle (c # cs) \<or> py_in needle cs)"

text \<open>
  \<^verbatim>\<open>is_device_mounted\<close>. The argument \<open>proc_mounts\<close> is what
  \<^verbatim>\<open>open('/proc/mounts').readlines()\<close> gives: the lines of the mount table,
  or \<open>None\<close> when reading raises (the handler then returns \<^verbatim>\<open>False\<close>).
\<close>

definition is_device_mounted :: "string list option \<Rightarrow> path \<Rightarrow> bool" where
  "is_device_mounted proc_mounts device_path =
     (case proc_mounts of
        None \<Rightarrow> False
      | Some mounts \<Rightarrow> list_ex (\<lambda>mount. py_in (show_path device_path) mount) mounts)"

text \<open>
  The specification's reading of \<open>isMounted\<close>, for comparison: the device path is
  present as an exact device entry of the mount table, that is, as the first
  blank-separated field of one of its lines.
\<close>

definition mount_table_device :: "string \<Rightarrow> string" where
  "mount_table_device line = takeWhile (\<lambda>c. c \<noteq> CHR '' '') line"

definition is_mounted_exact :: "string list \<Rightarrow> path \<Rightarrow> bool" where
  "is_mounted_exact mounts device_path =
     list_ex (\<lambda>line. mount_table_device line = show_path device_path) mounts"

text \<open>What the user sees: a text on the status line, or a warning box (title, text).\<close>

datatype ui_event = StatusMessage string | WarningBox string string

text \<open>
  What the operating system answers during one call of \<^verbatim>\<open>mount_device\<close> or
  \<^verbatim>\<open>unmount_device\<close>: an exception while the script file is written, while
  it is made executable, or while it is deleted (each \<open>Some\<close> of the exception's
  text), and the outcome of
  \<^verbatim>\<open>subprocess.run(['pkexec', script], capture_output=True, text=True)\<close>
  for a script text: an exception, or the exit code with the captured standard error.
\<close>

record helper_env =
  write_error :: "string option"
  chmod_error :: "string option"
  pkexec :: "string \<Rightarrow> string + (int \<times> string)"
  unlink_error :: "string option"

definition nl :: string where
  "nl = [CHR 0x0A]"

text \<open>The two \<^verbatim>\<open>f.write\<close> calls that fill the temporary script.\<close>

definition mount_script :: "path \<Rightarrow> string" where
  "mount_script device_path =
     (''#!/bin/bash'' @ nl) @ (''udisksctl mount -b '' @ show_path device_path @ nl)"

definition unmount_script :: "path \<Rightarrow> string" where
  "unmount_script device_path =
     (''#!/bin/bash'' @ nl) @ (''udisksctl unmount -b '' @ show_path device_path @ nl)"

text \<open>
  \<^verbatim>\<open>mount_device\<close> gives its return value, what it shows to the user, and the
  scripts it has run through the helper. Any exception inside the \<^verbatim>\<open>try\<close>
  ends in the handler: a warning box with \<^verbatim>\<open>Error: \<close> and the exception's
  text, and \<^verbatim>\<open>False\<close>.
\<close>

definition mount_device :: "helper_env \<Rightarrow> path \<Rightarrow> bool \<times> ui_event list \<times> string list" where
  "mount_device env device_path =
     (case write_error env of
        Some e \<Rightarrow> (False, [WarningBox ''Error al montar'' (''Error: '' @ e)], [])
      | None \<Rightarrow>
     (case chmod_error env of
        Some e \<Rightarrow> (False, [WarningBox ''Error al montar'' (''Error: '' @ e)], [])
      | None \<Rightarrow>
     (case pkexec env (mount_script device_path) of
        Inl e \<Rightarrow> (False, [WarningBox ''Error al montar'' (''Error: '' @ e)], [])
      | Inr (returncode, stderr) \<Rightarrow>
     (case unlink_error env of
        Some e \<Rightarrow>
          (False, [WarningBox ''Error al montar'' (''Error: '' @ e)], [mount_script device_path])
      | None \<Rightarrow>
          if returncode = 0
          then (True, [StatusMessage (''Dispositivo montado: '' @ show_path device_path)],
                [mount_script device_path])
          else (False,
                [WarningBox ''Error al montar''
                   (''No se pudo montar '' @ show_path device_path @ '':'' @ nl @ stderr)],
                [mount_script device_path])))))"

text \<open>
  \<^verbatim>\<open>unmount_device\<close> has no \<^verbatim>\<open>return\<close> statement: every call returns
  \<^verbatim>\<open>None\<close>. The model gives what it shows and the scripts it has run.
\<close>

definition unmount_device :: "helper_env \<Rightarrow> path \<Rightarrow> ui_event list \<times> string list" where
  "unmount_device env device_path =
     (case write_error env of
        Some e \<Rightarrow> ([WarningBox ''Error al desmontar'' (''Error: '' @ e)], [])
      | None \<Rightarrow>
     (case chmod_error env of
        Some e \<Rightarrow> ([WarningBox ''Error al desmontar'' (''Error: '' @ e)], [])
      | None \<Rightarrow>
     (case pkexec env (unmount_script device_path) of
        Inl e \<Rightarrow> ([WarningBox ''Error al desmontar'' (''Error: '' @ e)], [])
      | Inr (returncode, stderr) \<Rightarrow>
     (case unlink_error env of
        Some e \<Rightarrow>
          ([WarningBox ''Error al desmontar'' (''Error: '' @ e)], [unmount_script device_path])
      | None \<Rightarrow>
          if returncode = 0
          then ([StatusMessage (''Dispositivo desmontado: '' @ show_path device_path)],
                [unmount_script device_path])
          else ([WarningBox ''Error al desmontar''
                   (''No se pudo desmontar '' @ show_path device_path @ '':'' @ nl @ stderr)],
                [unmount_script device_path])))))"

text \<open>No step raises; the helper exits with the given code and standard error.\<close>

definition helper_exits :: "int \<Rightarrow> string \<Rightarrow> helper_env" where
  "helper_exits returncode stderr =
     \<lparr>write_error = None, chmod_error = None,
      pkexec = (\<lambda>_. Inr (returncode, stderr)), unlink_error = None\<rparr>"

text \<open>The lines of a text, each ended by a line break (\<^verbatim>\<open>str.splitlines\<close>).\<close>

fun text_lines :: "string \<Rightarrow> string list" where
  "text_lines [] = []"
| "text_lines (c # cs) =
     (if c = CHR 0x0A then [] # text_lines cs
      else (case text_lines cs of [] \<Rightarrow> [[c]] | l # ls \<Rightarrow> (c # l) # ls))"


section \<open>The file system seen by \<^verbatim>\<open>shutil\<close>, \<^verbatim>\<open>os\<close> and \<^verbatim>\<open>pathlib\<close>\<close>

text \<open>
  The transfer engine and the trash only act through library calls on the file system.
  The store maps a path to what is there: a regular file with its content, or a
  directory. It is an association list, the first pair of a path counts; the root is
  always a directory. The store holds what is seen through symbolic links: for a link
  to a directory, the entries below it. One volume and no timestamps are modelled (so
  \<^verbatim>\<open>copy2\<close> copies the content only, and a rename never fails for crossing a
  device). Of the permissions only the one that a silent call depends on is modelled:
  whether a directory can be listed. Every other refusal of the system (a file that
  cannot be read, a directory that cannot be written) is an exception, which ends the
  call that meets it.
\<close>

datatype entry = File string | Dir

type_synonym fs = "(path \<times> entry) list"

definition lookup :: "fs \<Rightarrow> path \<Rightarrow> entry option" where
  "lookup fs p = (if p = [] then Some Dir else map_of fs p)"

text \<open>\<^verbatim>\<open>Path.is_dir\<close> and \<^verbatim>\<open>Path.exists\<close>\<close>

definition is_dir :: "fs \<Rightarrow> path \<Rightarrow> bool" where
  "is_dir fs p = (lookup fs p = Some Dir)"

definition fs_exists :: "fs \<Rightarrow> path \<Rightarrow> bool" where
  "fs_exists fs p = (lookup fs p \<noteq> None)"

text \<open>What is there is a regular file (\<^verbatim>\<open>Path.is_file\<close>).\<close>

definition is_file :: "fs \<Rightarrow> path \<Rightarrow> bool" where
  "is_file fs p = (case lookup fs p of Some (File content) \<Rightarrow> True | _ \<Rightarrow> False)"

text \<open>\<^verbatim>\<open>Path.name\<close>, as a path of no or one component (the root has no name).\<close>

definition basename :: "path \<Rightarrow> path" where
  "basename p = (if p = [] then [] else [last p])"

text \<open>What \<^verbatim>\<open>os.scandir\<close> lists in a directory, in the order of the store.\<close>

definition child_names :: "fs \<Rightarrow> path \<Rightarrow> string list" where
  "child_names fs d =
     remdups (map (\<lambda>q. last q) (filter (\<lambda>q. q \<noteq> [] \<and> butlast q = d) (map fst fs)))"

definition subdirs :: "fs \<Rightarrow> path \<Rightarrow> string list" where
  "subdirs fs d = filter (\<lambda>n. is_dir fs (d @ [n])) (child_names fs d)"

definition nondirs :: "fs \<Rightarrow> path \<Rightarrow> string list" where
  "nondirs fs d = filter (\<lambda>n. \<not> is_dir fs (d @ [n])) (child_names fs d)"

text \<open>The number of stored paths strictly below a directory: what \<open>walk\<close> descends on.\<close>

definition below :: "fs \<Rightarrow> path \<Rightarrow> nat" where
  "below fs d = length (filter (\<lambda>q. strict_prefix d q) (map fst fs))"

lemma filter_length_less:
  assumes "\<And>x. x \<in> set xs \<Longrightarrow> P x \<Longrightarrow> Q x" "y \<in> set xs" "Q y" "\<not> P y"
  shows "length (filter P xs) < length (filter Q xs)"
proof -
  have "filter P xs = filter P (filter Q xs)"
    using assms(1) by (induction xs) auto
  moreover have "length (filter P (filter Q xs)) < length (filter Q xs)"
    using assms(2-4) by (intro length_filter_less[of y]) auto
  ultimately show ?thesis by simp
qed

lemma child_names_key: "n \<in> set (child_names fs d) \<Longrightarrow> d @ [n] \<in> fst ` set fs"
proof -
  assume "n \<in> set (child_names fs d)"
  then obtain q where q: "q \<in> fst ` set fs" "q \<noteq> []" "butlast q = d" "last q = n"
    by (auto simp: child_names_def)
  then have "q = d @ [n]" using append_butlast_last_id[of q] by simp
  then show ?thesis using q(1) by simp
qed

lemma below_child: "n \<in> set (child_names fs d) \<Longrightarrow> below fs (d @ [n]) < below fs d"
  unfolding below_def
proof (rule filter_length_less[where y = "d @ [n]"])
  fix x assume "strict_prefix (d @ [n]) x"
  then show "strict_prefix d x"
    by (auto simp: strict_prefix_def prefix_def)
next
  assume "n \<in> set (child_names fs d)"
  then show "d @ [n] \<in> set (map fst fs)" using child_names_key by simp
qed (auto simp: strict_prefix_def)

text \<open>
  What a listing of directories depends on besides the store: the directories that the
  process cannot list (\<^verbatim>\<open>os.scandir\<close> raises \<^verbatim>\<open>PermissionError\<close>), and the
  entries that are symbolic links (\<^verbatim>\<open>os.path.islink\<close>). Both are taken to stay
  the same while one call runs.
\<close>

record listing =
  unreadable :: "path \<Rightarrow> bool"
  is_link :: "path \<Rightarrow> bool"

text \<open>Every directory can be listed and nothing is a link.\<close>

definition no_skips :: listing where
  "no_skips = \<lparr>unreadable = (\<lambda>q. False), is_link = (\<lambda>q. False)\<rparr>"

text \<open>
  \<^verbatim>\<open>os.walk(topdir)\<close> with its defaults (top-down, no \<^verbatim>\<open>onerror\<close>, links
  not followed): for a directory that can be listed, its triple
  \<^verbatim>\<open>(root, dirs, files)\<close>, then the walks of its subdirectories that are no
  links. A subdirectory that is a link is named in \<open>dirs\<close> and not entered; a
  directory that cannot be listed gives nothing, and so does what is no directory (the
  error of \<^verbatim>\<open>scandir\<close> is ignored); \<open>topdir\<close> itself may be a link. The list is
  the walk of the store as it is when the walk starts. \<^verbatim>\<open>os.walk\<close> itself
  lists each directory only when it reaches it: the two agree as long as the loop body
  writes nothing below \<open>topdir\<close>, and \<open>transfer_item\<close> below gives no result
  where it would.
\<close>

function walk :: "listing \<Rightarrow> fs \<Rightarrow> path \<Rightarrow> (path \<times> string list \<times> string list) list" where
  "walk ls fs topdir =
     (if is_dir fs topdir \<and> \<not> unreadable ls topdir
      then (topdir, subdirs fs topdir, nondirs fs topdir)
             # concat (map (\<lambda>d. if is_link ls (topdir @ [d]) then [] else walk ls fs (topdir @ [d]))
                           (subdirs fs topdir))
      else [])"
  by pat_completeness auto
termination
  by (relation "measure (\<lambda>(ls, fs, topdir). below fs topdir)") (auto simp: subdirs_def below_child)

declare walk.simps [simp del]

text \<open>
  \<^verbatim>\<open>Path.mkdir(parents=True, exist_ok=True)\<close>: every missing directory on the
  way is created; a regular file on the way is an error.
\<close>

fun mkdirs :: "path \<Rightarrow> string list \<Rightarrow> fs \<Rightarrow> string + fs" where
  "mkdirs base [] fs = Inr fs"
| "mkdirs base (c # cs) fs =
     (case lookup fs (base @ [c]) of
        Some Dir \<Rightarrow> mkdirs (base @ [c]) cs fs
      | Some (File _) \<Rightarrow> Inl (if cs = [] then ''FileExistsError'' else ''NotADirectoryError'')
      | None \<Rightarrow> mkdirs (base @ [c]) cs (AList.update (base @ [c]) Dir fs))"

definition mkdir_p :: "fs \<Rightarrow> path \<Rightarrow> string + fs" where
  "mkdir_p fs q = mkdirs [] q fs"

text \<open>\<^verbatim>\<open>os.makedirs(q)\<close>, which refuses an existing \<open>q\<close>.\<close>

definition makedirs :: "fs \<Rightarrow> path \<Rightarrow> string + fs" where
  "makedirs fs q = (if fs_exists fs q then Inl ''FileExistsError'' else mkdir_p fs q)"

text \<open>
  \<^verbatim>\<open>shutil.copy2(src, dst)\<close>: when \<open>dst\<close> is a directory the file goes
  \<^emph>\<open>into\<close> it, under the name of \<open>src\<close>; copying a file onto itself raises
  \<^verbatim>\<open>SameFileError\<close>; an existing regular file is overwritten.
\<close>

definition copy2 :: "fs \<Rightarrow> path \<Rightarrow> path \<Rightarrow> string + fs" where
  "copy2 fs src dst =
     (let real_dst = (if is_dir fs dst then dst @ basename src else dst) in
      if fs_exists fs src \<and> src = real_dst then Inl ''SameFileError''
      else (case lookup fs src of
              None \<Rightarrow> Inl ''FileNotFoundError''
            | Some Dir \<Rightarrow> Inl ''IsADirectoryError''
            | Some (File content) \<Rightarrow>
                if is_dir fs real_dst then Inl ''IsADirectoryError''
                else if \<not> fs_exists fs (butlast real_dst) then Inl ''FileNotFoundError''
                else if \<not> is_dir fs (butlast real_dst) then Inl ''NotADirectoryError''
                else Inr (AList.update real_dst (File content) fs)))"

text \<open>
  \<^verbatim>\<open>shutil.copytree(src, dst)\<close>: \<open>src\<close> is listed first and \<open>dst\<close> must
  not exist; the directories of \<open>src\<close> are created below \<open>dst\<close> and the files
  copied with \<open>copy2\<close>. Links are followed (\<^verbatim>\<open>symlinks=False\<close>), so the
  directories are those of \<open>walk\<close> with no entry taken as a link. An error on one
  entry is remembered, the other entries are still copied, and \<^verbatim>\<open>shutil.Error\<close>
  is raised at the end: the flag of the state says whether an error has been met. A
  subdirectory that cannot be listed is such an error, and nothing is created for it.
\<close>

definition follow :: "listing \<Rightarrow> listing" where
  "follow ls = ls\<lparr>is_link := (\<lambda>q. False)\<rparr>"

definition blocked :: "listing \<Rightarrow> (path \<times> string list \<times> string list) list \<Rightarrow> bool" where
  "blocked ls triples =
     list_ex (\<lambda>(root, dirs, files). list_ex (\<lambda>d. unreadable ls (root @ [d])) dirs) triples"

fun copytree_files :: "path \<Rightarrow> path \<Rightarrow> string list \<Rightarrow> bool \<times> fs \<Rightarrow> bool \<times> fs" where
  "copytree_files root tdir [] st = st"
| "copytree_files root tdir (f # fs') (failed, fs) =
     (case copy2 fs (root @ [f]) (tdir @ [f]) of
        Inl e \<Rightarrow> copytree_files root tdir fs' (True, fs)
      | Inr fs1 \<Rightarrow> copytree_files root tdir fs' (failed, fs1))"

fun copytree_walk ::
  "path \<Rightarrow> path \<Rightarrow> (path \<times> string list \<times> string list) list \<Rightarrow> bool \<times> fs \<Rightarrow> bool \<times> fs" where
  "copytree_walk src dst [] st = st"
| "copytree_walk src dst ((root, dirs, files) # rest) (failed, fs) =
     (case makedirs fs (dst @ drop (length src) root) of
        Inl e \<Rightarrow> copytree_walk src dst rest (True, fs)
      | Inr fs1 \<Rightarrow>
          copytree_walk src dst rest
            (copytree_files root (dst @ drop (length src) root) files (failed, fs1)))"

definition copytree :: "listing \<Rightarrow> fs \<Rightarrow> path \<Rightarrow> path \<Rightarrow> string option \<times> fs" where
  "copytree ls fs src dst =
     (if \<not> fs_exists fs src then (Some ''FileNotFoundError'', fs)
      else if \<not> is_dir fs src then (Some ''NotADirectoryError'', fs)
      else if unreadable ls src then (Some ''PermissionError'', fs)
      else if fs_exists fs dst then (Some ''FileExistsError'', fs)
      else (case copytree_walk src dst (walk (follow ls) fs src)
                   (blocked ls (walk (follow ls) fs src), fs) of
              (True, fs1) \<Rightarrow> (Some ''Error'', fs1)
            | (False, fs1) \<Rightarrow> (None, fs1)))"

text \<open>\<^verbatim>\<open>shutil.rmtree\<close> and \<^verbatim>\<open>Path.unlink\<close>: the path and all below it go.\<close>

definition remove_tree :: "path \<Rightarrow> fs \<Rightarrow> fs" where
  "remove_tree p fs = filter (\<lambda>(q, e). \<not> prefix p q) fs"

text \<open>The effect of a successful rename: the subtree at \<open>src\<close> now hangs at \<open>dst\<close>.\<close>

definition rename_tree :: "path \<Rightarrow> path \<Rightarrow> fs \<Rightarrow> fs" where
  "rename_tree src dst fs =
     map (\<lambda>(q, e). if prefix src q then (dst @ drop (length src) q, e) else (q, e))
         (filter (\<lambda>(q, e). prefix src q \<or> \<not> prefix dst q) fs)"

text \<open>
  \<^verbatim>\<open>os.rename\<close> (POSIX): the source must exist and the parent of the target be
  a directory; a file replaces a file, a directory replaces an empty directory; a
  directory cannot go below itself.
\<close>

definition os_rename :: "fs \<Rightarrow> path \<Rightarrow> path \<Rightarrow> string + fs" where
  "os_rename fs src dst =
     (case lookup fs src of
        None \<Rightarrow> Inl ''FileNotFoundError''
      | Some kind \<Rightarrow>
          if src = dst then Inr fs
          else if src = [] \<or> dst = [] then Inl ''OSError''
          else if kind = Dir \<and> prefix src dst then Inl ''OSError''
          else if \<not> fs_exists fs (butlast dst) then Inl ''FileNotFoundError''
          else if \<not> is_dir fs (butlast dst) then Inl ''NotADirectoryError''
          else (case lookup fs dst of
                  None \<Rightarrow> Inr (rename_tree src dst fs)
                | Some (File _) \<Rightarrow>
                    if kind = Dir then Inl ''NotADirectoryError'' else Inr (rename_tree src dst fs)
                | Some Dir \<Rightarrow>
                    if kind \<noteq> Dir then Inl ''IsADirectoryError''
                    else if child_names fs dst \<noteq> [] then Inl ''OSError''
                    else Inr (rename_tree src dst fs)))"

text \<open>
  \<^verbatim>\<open>shutil.move(src, dst)\<close>: into \<open>dst\<close> when \<open>dst\<close> is a directory
  (refusing an existing entry of that name there), else onto \<open>dst\<close>; by
  \<^verbatim>\<open>os.rename\<close>, and when that fails by copying and deleting the source. The
  copy of a directory keeps links as links there; the store holds what is seen through
  a link, so it is the copy of the linked entries.
\<close>

definition move :: "listing \<Rightarrow> fs \<Rightarrow> path \<Rightarrow> path \<Rightarrow> string option \<times> fs" where
  "move ls fs src dst =
     (if is_dir fs dst \<and> fs_exists fs src \<and> src = dst then (None, fs)
      else
        let real_dst = (if is_dir fs dst then dst @ basename src else dst) in
        if is_dir fs dst \<and> fs_exists fs real_dst then (Some ''Error'', fs)
        else (case os_rename fs src real_dst of
                Inr fs1 \<Rightarrow> (None, fs1)
              | Inl _ \<Rightarrow>
                  if is_dir fs src then
                    if prefix src dst then (Some ''Error'', fs)
                    else (case copytree ls fs src real_dst of
                            (Some e, fs1) \<Rightarrow> (Some e, fs1)
                          | (None, fs1) \<Rightarrow> (None, remove_tree src fs1))
                  else (case copy2 fs src real_dst of
                          Inl e \<Rightarrow> (Some e, fs)
                        | Inr fs1 \<Rightarrow> (None, remove_tree src fs1))))"


section \<open>The transfer engine (\<^verbatim>\<open>FileOpWorker\<close>)\<close>

text \<open>
  \<^verbatim>\<open>self.op\<close> is \<^verbatim>\<open>'copy'\<close> or \<^verbatim>\<open>'move'\<close>. The worker ends with
  \<^verbatim>\<open>finished_ok\<close> or with \<^verbatim>\<open>finished_error(str(e))\<close>; these are its only
  two terminal signals. A progress event is the pair given to
  \<^verbatim>\<open>progress.emit\<close>: the percentage and the path as text.
\<close>

datatype op = Copy | Move

datatype terminal = Completed | Failed string

text \<open>
  While \<^verbatim>\<open>run\<close> transfers, its state is the file system, the counter
  \<^verbatim>\<open>done\<close> and the events emitted so far.
\<close>

type_synonym wstate = "fs \<times> nat \<times> (int \<times> string) list"

text \<open>
  \<^verbatim>\<open>done += 1; self.progress.emit(int(done*100/total_files), str(path))\<close>.
  The quotient of the two non-negative integers is truncated, so it is their integer
  quotient.
\<close>

fun emit :: "nat \<Rightarrow> path \<Rightarrow> wstate \<Rightarrow> wstate" where
  "emit tot p (fs, done, evs) =
     (fs, done + 1, evs @ [(int ((done + 1) * 100 div tot), show_path p)])"

text \<open>The loop \<^verbatim>\<open>for f in files\<close> of the merge branch; an exception ends it.\<close>

fun copy_files :: "nat \<Rightarrow> path \<Rightarrow> path \<Rightarrow> string list \<Rightarrow> wstate \<Rightarrow> string option \<times> wstate" where
  "copy_files tot root tdir [] st = (None, st)"
| "copy_files tot root tdir (f # fs') (fs, done, evs) =
     (case copy2 fs (root @ [f]) (tdir @ [f]) of
        Inl e \<Rightarrow> (Some e, (fs, done, evs))
      | Inr fs1 \<Rightarrow> copy_files tot root tdir fs' (emit tot (root @ [f]) (fs1, done, evs)))"

text \<open>
  The loop \<^verbatim>\<open>for root, dirs, files in os.walk(p)\<close> of the merge branch;
  \<^verbatim>\<open>rel\<close> is \<open>root\<close> without the leading \<open>p\<close>.
\<close>

fun merge_walk ::
  "nat \<Rightarrow> path \<Rightarrow> path \<Rightarrow> (path \<times> string list \<times> string list) list \<Rightarrow> wstate
    \<Rightarrow> string option \<times> wstate" where
  "merge_walk tot p target [] st = (None, st)"
| "merge_walk tot p target ((root, dirs, files) # rest) (fs, done, evs) =
     (case mkdir_p fs (target @ drop (length p) root) of
        Inl e \<Rightarrow> (Some e, (fs, done, evs))
      | Inr fs1 \<Rightarrow>
          (case copy_files tot root (target @ drop (length p) root) files (fs1, done, evs) of
             (Some e, st) \<Rightarrow> (Some e, st)
           | (None, st) \<Rightarrow> merge_walk tot p target rest st))"

text \<open>
  The body of \<^verbatim>\<open>for p in self.items\<close>. The result is \<open>None\<close> where a
  directory is copied onto a place above or below itself: there \<^verbatim>\<open>os.walk\<close> and
  \<^verbatim>\<open>copytree\<close> would read what they have just written, which the walk of the
  initial store does not describe. Otherwise the result tells whether an exception
  was raised, and the state reached.
\<close>

fun transfer_item ::
  "listing \<Rightarrow> op \<Rightarrow> nat \<Rightarrow> path \<Rightarrow> path \<Rightarrow> wstate \<Rightarrow> (string option \<times> wstate) option" where
  "transfer_item ls Copy tot dest p (fs, done, evs) =
     (let target = dest @ basename p in
      if is_dir fs p then
        if fs_exists fs target then
          (if p \<noteq> target \<and> (prefix p target \<or> prefix target p) then None
           else Some (merge_walk tot p target (walk ls fs p) (fs, done, evs)))
        else
          (if prefix p target then None
           else Some (case copytree ls fs p target of
                        (Some e, fs1) \<Rightarrow> (Some e, (fs1, done, evs))
                      | (None, fs1) \<Rightarrow> (None, emit tot p (fs1, done, evs))))
      else Some (case copy2 fs p target of
                   Inl e \<Rightarrow> (Some e, (fs, done, evs))
                 | Inr fs1 \<Rightarrow> (None, emit tot p (fs1, done, evs))))"
| "transfer_item ls Move tot dest p (fs, done, evs) =
     Some (case move ls fs p (dest @ basename p) of
             (Some e, fs1) \<Rightarrow> (Some e, (fs1, done, evs))
           | (None, fs1) \<Rightarrow> (None, emit tot p (fs1, done, evs)))"

fun transfer ::
  "listing \<Rightarrow> op \<Rightarrow> nat \<Rightarrow> path \<Rightarrow> path list \<Rightarrow> wstate \<Rightarrow> (string option \<times> wstate) option" where
  "transfer ls opk tot dest [] st = Some (None, st)"
| "transfer ls opk tot dest (p # ps) st =
     (case transfer_item ls opk tot dest p st of
        None \<Rightarrow> None
      | Some (Some e, st1) \<Rightarrow> Some (Some e, st1)
      | Some (None, st1) \<Rightarrow> transfer ls opk tot dest ps st1)"

text \<open>The pre-scan: \<^verbatim>\<open>file_list\<close> and \<^verbatim>\<open>total_files = max(len(file_list), 1)\<close>.\<close>

definition file_list :: "listing \<Rightarrow> fs \<Rightarrow> path list \<Rightarrow> path list" where
  "file_list ls fs items =
     concat (map (\<lambda>p. if is_dir fs p
                       then concat (map (\<lambda>(root, dirs, files). map (\<lambda>f. root @ [f]) files) (walk ls fs p))
                       else [p]) items)"

definition total_files :: "listing \<Rightarrow> fs \<Rightarrow> path list \<Rightarrow> nat" where
  "total_files ls fs items = max (length (file_list ls fs items)) 1"

text \<open>
  \<^verbatim>\<open>FileOpWorker.run\<close> for a worker made with \<open>opk\<close>, \<open>items\<close> and
  \<open>dest\<close> (its only caller always gives a destination): the progress events in
  the order of emission, the terminal signal, and the file system left behind. It is
  the method from its first statement to its last; the thread that executes it and the
  dialog that receives its signals are not modelled.
\<close>

definition run ::
  "listing \<Rightarrow> op \<Rightarrow> path list \<Rightarrow> path \<Rightarrow> fs
    \<Rightarrow> ((int \<times> string) list \<times> terminal \<times> fs) option" where
  "run ls opk items dest fs =
     (case transfer ls opk (total_files ls fs items) dest items (fs, 0, []) of
        None \<Rightarrow> None
      | Some (None, (fs1, done, evs)) \<Rightarrow> Some (evs, Completed, fs1)
      | Some (Some e, (fs1, done, evs)) \<Rightarrow> Some (evs, Failed e, fs1))"

text \<open>
  The invariant of the transfer loop: \<^verbatim>\<open>done\<close> counts the events emitted, and
  the \<open>k\<close>-th event carries the truncated quotient of \<open>k * 100\<close> by the total.
\<close>

definition progress_ok :: "nat \<Rightarrow> wstate \<Rightarrow> bool" where
  "progress_ok tot st =
     (case st of (fs, dn, evs) \<Rightarrow>
        dn = length evs \<and> map fst evs = map (\<lambda>k. int (k * 100 div tot)) [1..<Suc (length evs)])"


text \<open>
  Notions for stating what a copy can touch. Two stores are the same under \<open>p\<close>
  when they hold the same pairs, in the same order, for \<open>p\<close> and all below it. A
  path is outside a place when neither is above the other; it is near the place when
  one is above the other. A copy to a place only writes near it: what lies outside is
  the same afterwards, and nothing disappears or changes its kind, a directory stays a
  directory and a regular file a regular file. The same is said of a set of places.
\<close>

definition same_under :: "path \<Rightarrow> fs \<Rightarrow> fs \<Rightarrow> bool" where
  "same_under p fs fs' = (filter (\<lambda>x. prefix p (fst x)) fs = filter (\<lambda>x. prefix p (fst x)) fs')"

definition outside :: "path \<Rightarrow> path \<Rightarrow> bool" where
  "outside dest p = (\<not> prefix p dest \<and> \<not> prefix dest p)"

definition near :: "path \<Rightarrow> path \<Rightarrow> bool" where
  "near dest k = (prefix k dest \<or> prefix dest k)"

definition touch_near :: "path \<Rightarrow> fs \<Rightarrow> fs \<Rightarrow> bool" where
  "touch_near dest fs fs' =
     ((\<forall>p. outside dest p \<longrightarrow> same_under p fs fs') \<and> (\<forall>q. fs_exists fs q \<longrightarrow> fs_exists fs' q)
      \<and> (\<forall>q. is_dir fs q \<longrightarrow> is_dir fs' q) \<and> (\<forall>q. is_file fs q \<longrightarrow> is_file fs' q))"



text \<open>The number of files that a walk lists.\<close>

definition units :: "(path \<times> string list \<times> string list) list \<Rightarrow> nat" where
  "units triples = sum_list (map (\<lambda>(root, dirs, files). length files) triples)"




text \<open>
  Notions for stating what a merge copy of the directory \<open>p\<close> into the existing
  directory \<open>target\<close> does. \<open>landing\<close> lists where the files of \<open>p\<close> are to
  land: for the file \<open>f\<close> listed under \<open>root\<close>, the path \<open>target/rel/f\<close>.
  \<open>created\<close> lists the directories of \<open>p\<close>, moved below \<open>target\<close>. The
  invariant of the merge loop says of every path that it holds what it held at the
  start, or it is a landing place holding what its source file holds, or it is a new
  directory on the way to one of the directories to create. \<open>carries\<close> relates an
  earlier to a later state of the loop: a landing place that holds its source keeps
  holding it, and directories stay directories.
\<close>

definition landing :: "listing \<Rightarrow> fs \<Rightarrow> path \<Rightarrow> path \<Rightarrow> path list" where
  "landing ls fs p target =
     concat (map (\<lambda>(root, dirs, files). map (\<lambda>f. target @ drop (length p) root @ [f]) files)
                 (walk ls fs p))"

definition created :: "listing \<Rightarrow> fs \<Rightarrow> path \<Rightarrow> path \<Rightarrow> path list" where
  "created ls fs p target = map (\<lambda>(root, dirs, files). target @ drop (length p) root) (walk ls fs p)"

definition merge_inv :: "listing \<Rightarrow> fs \<Rightarrow> path \<Rightarrow> path \<Rightarrow> fs \<Rightarrow> bool" where
  "merge_inv ls fs0 p target fs =
     (\<forall>q. lookup fs q = lookup fs0 q
        \<or> (q \<in> set (landing ls fs0 p target) \<and> lookup fs q = lookup fs0 (p @ drop (length target) q))
        \<or> (lookup fs0 q = None \<and> lookup fs q = Some Dir
            \<and> (\<exists>d\<in>set (created ls fs0 p target). prefix q d)))"

definition carries :: "listing \<Rightarrow> fs \<Rightarrow> path \<Rightarrow> path \<Rightarrow> fs \<Rightarrow> fs \<Rightarrow> bool" where
  "carries ls fs0 p target fs fs' =
     ((\<forall>q\<in>set (landing ls fs0 p target).
          lookup fs q = lookup fs0 (p @ drop (length target) q)
          \<longrightarrow> lookup fs' q = lookup fs0 (p @ drop (length target) q))
      \<and> (\<forall>q. is_dir fs q \<longrightarrow> is_dir fs' q))"


section \<open>The trash (\<^verbatim>\<open>FileTab.delete_selected\<close>, \<^verbatim>\<open>FileTab.restore_from_trash\<close>)\<close>

text \<open>\<^verbatim>\<open>Path.name\<close> as a text; the root has the empty name.\<close>

definition name_of :: "path \<Rightarrow> string" where
  "name_of p = (if p = [] then [] else last p)"

text \<open>
  \<^verbatim>\<open>str.strip()\<close> removes the white space at both ends (the ASCII characters
  for which \<^verbatim>\<open>str.isspace\<close> holds; texts are taken to be ASCII).
\<close>

definition is_space :: "char \<Rightarrow> bool" where
  "is_space c = (c \<in> set [CHR 0x09, CHR 0x0A, CHR 0x0B, CHR 0x0C, CHR 0x0D,
                           CHR 0x1C, CHR 0x1D, CHR 0x1E, CHR 0x1F, CHR 0x20])"

definition py_strip :: "string \<Rightarrow> string" where
  "py_strip s = rev (dropWhile is_space (rev (dropWhile is_space s)))"

text \<open>
  A file opened in text mode is read with universal newlines: a carriage return, alone
  or before a line feed, reads as one line feed.
\<close>

fun universal_newlines :: "string \<Rightarrow> string" where
  "universal_newlines [] = []"
| "universal_newlines [c] = (if c = CHR 0x0D then [CHR 0x0A] else [c])"
| "universal_newlines (c # d # cs) =
     (if c = CHR 0x0D \<and> d = CHR 0x0A then CHR 0x0A # universal_newlines cs
      else if c = CHR 0x0D then CHR 0x0A # universal_newlines (d # cs)
      else c # universal_newlines (d # cs))"

fun split_on :: "char \<Rightarrow> string \<Rightarrow> string list" where
  "split_on d [] = [[]]"
| "split_on d (c # cs) =
     (if c = d then [] # split_on d cs
      else (case split_on d cs of [] \<Rightarrow> [[c]] | l # ls \<Rightarrow> (c # l) # ls))"

text \<open>
  \<^verbatim>\<open>Path(text)\<close>: the components between slashes, without the empty ones and
  the dots; a text that does not start with a slash is relative to the working
  directory. A text with a component \<^verbatim>\<open>..\<close> is not modelled (\<open>None\<close>).
\<close>

definition path_of :: "path \<Rightarrow> string \<Rightarrow> path option" where
  "path_of working_dir s =
     (let parts = filter (\<lambda>c. c \<noteq> [] \<and> c \<noteq> ''.'') (split_on CHR ''/'' s) in
      if ''..'' \<in> set parts then None
      else if prefix ''/'' s then Some parts
      else Some (working_dir @ parts))"

text \<open>\<^verbatim>\<open>Path.unlink\<close>, which removes a regular file only.\<close>

definition unlink :: "fs \<Rightarrow> path \<Rightarrow> string + fs" where
  "unlink fs q =
     (case lookup fs q of
        None \<Rightarrow> Inl ''FileNotFoundError''
      | Some Dir \<Rightarrow> Inl ''IsADirectoryError''
      | Some (File _) \<Rightarrow> Inr (remove_tree q fs))"

text \<open>
  What the trash asks of its surroundings: \<^verbatim>\<open>Path.home()\<close>, the working
  directory of the process, the answer of the user when asked whether an existing
  file at the original path is to be overwritten, and what a listing of directories
  depends on.
\<close>

record trash_env =
  home :: path
  cwd :: path
  overwrite_yes :: bool
  dir_listing :: listing

definition trash_files :: "trash_env \<Rightarrow> path" where
  "trash_files env = home env @ [''.local'', ''share'', ''Trash'', ''files'']"

definition trash_info :: "trash_env \<Rightarrow> path" where
  "trash_info env = home env @ [''.local'', ''share'', ''Trash'', ''info'']"

definition trash_root :: "trash_env \<Rightarrow> path" where
  "trash_root env = home env @ [''.local'', ''share'', ''Trash'']"

text \<open>The message boxes of \<^verbatim>\<open>restore_from_trash\<close>, by what they say.\<close>

datatype restore_note =
  NoRestoreInfo
| NoOriginalPath
| Restored path
| RestoreFailed string

text \<open>
  \<^verbatim>\<open>restore_from_trash(file_path)\<close>: the exception that leaves the function,
  if any (reading the record happens outside the \<^verbatim>\<open>try\<close>), the file system
  and the boxes shown. The refresh of the trash view is not modelled.
\<close>

definition restore_from_trash ::
  "trash_env \<Rightarrow> path \<Rightarrow> fs \<Rightarrow> (string option \<times> fs \<times> restore_note list) option" where
  "restore_from_trash env file_path fs =
     (let info_path = trash_info env @ [name_of file_path @ ''.trashinfo''] in
      case lookup fs info_path of
        None \<Rightarrow> Some (None, fs, [NoRestoreInfo])
      | Some Dir \<Rightarrow> Some (Some ''IsADirectoryError'', fs, [])
      | Some (File text) \<Rightarrow>
          (case find (prefix ''Path='') (text_lines (universal_newlines text)) of
             None \<Rightarrow> Some (None, fs, [NoOriginalPath])
           | Some line \<Rightarrow>
               (case path_of (cwd env) (py_strip (drop (length ''Path='') line)) of
                  None \<Rightarrow> None
                | Some orig \<Rightarrow>
                    if fs_exists fs orig \<and> \<not> overwrite_yes env then Some (None, fs, [])
                    else (case move (dir_listing env) fs file_path orig of
                            (Some e, fs1) \<Rightarrow> Some (None, fs1, [RestoreFailed e])
                          | (None, fs1) \<Rightarrow>
                              (case unlink fs1 info_path of
                                 Inl e \<Rightarrow> Some (None, fs1, [RestoreFailed e])
                               | Inr fs2 \<Rightarrow> Some (None, fs2, [Restored orig]))))))"

text \<open>
  Modelled from the spec: \<^verbatim>\<open>send2trash\<close> is a library outside this repository;
  its contract is taken from sections 4.2 and 6 of the specification. The item is moved
  under its own name into the content directory of the trash with the move primitive of
  the transfer engine, and a record with the original path and the deletion date is
  written under that name into the metadata directory. How the library writes the path
  into the record is the parameter \<open>path_text\<close>. The case that the stored name is
  taken, for which the library picks another name, is not modelled (\<open>None\<close>).
\<close>

definition trashinfo_record :: "string \<Rightarrow> string \<Rightarrow> string" where
  "trashinfo_record written_path date =
     ''[Trash Info]'' @ nl @ ''Path='' @ written_path @ nl @ ''DeletionDate='' @ date @ nl"

definition send2trash ::
  "trash_env \<Rightarrow> (path \<Rightarrow> string) \<Rightarrow> string \<Rightarrow> path \<Rightarrow> fs \<Rightarrow> (string option \<times> fs) option" where
  "send2trash env path_text date p fs =
     (let stored = trash_files env @ [name_of p];
          info_path = trash_info env @ [name_of p @ ''.trashinfo''] in
      if fs_exists fs stored \<or> fs_exists fs info_path then None
      else (case mkdir_p fs (trash_files env) of
              Inl e \<Rightarrow> Some (Some e, fs)
            | Inr fs1 \<Rightarrow>
          (case mkdir_p fs1 (trash_info env) of
              Inl e \<Rightarrow> Some (Some e, fs1)
            | Inr fs2 \<Rightarrow>
          (case move (dir_listing env) fs2 p stored of
              (Some e, fs3) \<Rightarrow> Some (Some e, fs3)
            | (None, fs3) \<Rightarrow>
                Some (None, AList.update info_path (File (trashinfo_record (path_text p) date)) fs3)))))"

text \<open>
  \<^verbatim>\<open>delete_selected\<close>, the user having confirmed: each selected path is sent to
  the trash; an exception is shown in a warning and the loop goes on. The result is the
  file system and the texts of the warnings.
\<close>

fun delete_selected ::
  "trash_env \<Rightarrow> (path \<Rightarrow> string) \<Rightarrow> string \<Rightarrow> path list \<Rightarrow> fs \<Rightarrow> (fs \<times> string list) option" where
  "delete_selected env path_text date [] fs = Some (fs, [])"
| "delete_selected env path_text date (p # ps) fs =
     (case send2trash env path_text date p fs of
        None \<Rightarrow> None
      | Some (err, fs1) \<Rightarrow>
          (case delete_selected env path_text date ps fs1 of
             None \<Rightarrow> None
           | Some (fs2, warnings) \<Rightarrow>
               Some (fs2, (case err of None \<Rightarrow> [] | Some e \<Rightarrow> [e]) @ warnings)))"

text \<open>
  Two ways of writing the path into the record: as it is, and escaped as in a URL, which
  is what the trash format of the desktop prescribes (\<^verbatim>\<open>urllib.parse.quote\<close>:
  letters, digits and \<^verbatim>\<open>_.-~/\<close> stay, every other byte becomes a percent sign
  and two hexadecimal digits).
\<close>

definition hex_digit :: "nat \<Rightarrow> char" where
  "hex_digit n = ''0123456789ABCDEF'' ! n"

definition url_safe :: "char \<Rightarrow> bool" where
  "url_safe c =
     (c \<in> set ''abcdefghijklmnopqrstuvwxyzABCDEFGHIJKLMNOPQRSTUVWXYZ0123456789_.-~/'')"

definition url_quote :: "string \<Rightarrow> string" where
  "url_quote s =
     concat (map (\<lambda>c. if url_safe c then [c]
                        else [CHR ''%'', hex_digit (of_char c div 16), hex_digit (of_char c mod 16)]) s)"


section \<open>Navigation history: properties\<close>

lemma history_push_in_range:
  assumes "0 \<le> history_index s" "history_index s < int (length (history s))"
  shows "history (history_push s) = take (nat (history_index s + 1)) (history s) @ [current_path s]"
    and "history_index (history_push s) = history_index s + 1"
proof -
  let ?i = "history_index s"
  have tk: "?i = int (length (history s)) - 1 \<Longrightarrow> take (nat (?i + 1)) (history s) = history s"
    by simp
  show "history (history_push s) = take (nat (?i + 1)) (history s) @ [current_path s]"
    using assms tk by (auto simp: history_push_def py_slice_to_def Let_def)
  show "history_index (history_push s) = ?i + 1"
    using assms by (auto simp: history_push_def py_slice_to_def Let_def min_def)
qed

lemma go_back_history: "history (snd (go_back env s)) = history s"
  by (simp add: go_back_def Let_def split: sum.splits)

lemma go_forward_history: "history (snd (go_forward env s)) = history s"
  by (simp add: go_forward_def Let_def split: sum.splits)

lemma history_push_ok: "hist_ok s \<Longrightarrow> hist_ok (history_push s)"
  using history_push_in_range [of s] by (auto simp: hist_ok_def min_def)

lemma set_directory_ok: "hist_ok s \<Longrightarrow> hist_ok (set_directory env p s)"
proof -
  assume ok: "hist_ok s"
  have upd: "\<And>c m. hist_ok (s\<lparr>current_path := c, status := m\<rparr>)"
    using ok by (simp add: hist_ok_def)
  have upd2: "\<And>m. hist_ok (s\<lparr>status := m\<rparr>)"
    using ok by (simp add: hist_ok_def)
  show ?thesis
    using ok upd upd2 history_push_ok
    by (simp add: set_directory_def Let_def split: option.splits nav_exception.splits)
qed

lemma go_back_ok: "hist_ok s \<Longrightarrow> hist_ok (snd (go_back env s))"
  by (auto simp: go_back_def hist_ok_def py_index_def Let_def split: sum.splits)

lemma go_forward_ok: "hist_ok s \<Longrightarrow> hist_ok (snd (go_forward env s))"
  by (auto simp: go_forward_def hist_ok_def py_index_def Let_def split: sum.splits)

lemma reachable_ok: "reachable s \<Longrightarrow> hist_ok s"
proof (induction rule: reachable.induct)
  case (r_init env start_path)
  show ?case by (simp add: hist_ok_def tab_init_def)
next
  case (r_push s env p)
  then show ?case by (simp add: set_directory_ok)
next
  case (r_back s env)
  then show ?case by (simp add: go_back_ok)
next
  case (r_forward s env)
  then show ?case by (simp add: go_forward_ok)
qed

lemma go_back_returns: "hist_ok s \<Longrightarrow> \<exists>b. fst (go_back env s) = Returned b"
  by (auto simp: go_back_def hist_ok_def py_index_def Let_def split: sum.splits)

lemma go_forward_returns: "hist_ok s \<Longrightarrow> \<exists>b. fst (go_forward env s) = Returned b"
  by (auto simp: go_forward_def hist_ok_def py_index_def Let_def split: sum.splits)


section \<open>Navigation history: the claims\<close>

text \<open>
  Claim C3. A push made while \<open>history_index\<close> is not at the tail first drops every
  entry after \<open>history_index\<close>, then appends the path and makes \<open>history_index\<close>
  the new last index. From entries \<open>[A, B, C, D, E]\<close> at index 4, two calls of
  \<open>go_back\<close> lead to index 2, and \<open>set_directory F\<close> then gives entries
  \<open>[A, B, C, F]\<close> at index 3 (\<open>F\<close> readable, existing; the stored path is
  the resolved one).
\<close>

theorem push_discards_forward_branch:
  "(0 \<le> history_index s \<and> history_index s < int (length (history s)) \<longrightarrow>
      history (history_push s) = take (nat (history_index s + 1)) (history s) @ [current_path s] \<and>
      history_index (history_push s) = int (length (history (history_push s))) - 1)
   \<and> (access_r env False F \<and> path_exists env F \<and> switch_error env F = None \<longrightarrow>
       (let s0 = \<lparr>current_path = E, history = [A, B, C, D, E], history_index = 4, status = m\<rparr>;
            s2 = snd (go_back env (snd (go_back env s0)));
            s3 = set_directory env F s2
        in history_index s2 = 2 \<and> history s2 = [A, B, C, D, E]
           \<and> history s3 = [A, B, C, resolve env F] \<and> history_index s3 = 3))"
proof (intro conjI impI)
  assume r: "0 \<le> history_index s \<and> history_index s < int (length (history s))"
  then show "history (history_push s) = take (nat (history_index s + 1)) (history s) @ [current_path s]"
    using history_push_in_range(1) [of s] by simp
  from r show "history_index (history_push s) = int (length (history (history_push s))) - 1"
    using history_push_in_range [of s] by (auto simp: min_def)
next
  assume g: "access_r env False F \<and> path_exists env F \<and> switch_error env F = None"
  define s0 where "s0 = \<lparr>current_path = E, history = [A, B, C, D, E], history_index = 4, status = m\<rparr>"
  define s1 where "s1 = snd (go_back env s0)"
  define s2 where "s2 = snd (go_back env s1)"
  have h1: "history s1 = [A, B, C, D, E]" "history_index s1 = 3"
    by (simp_all add: s1_def s0_def go_back_def py_index_def Let_def)
  have h2: "history s2 = [A, B, C, D, E]" "history_index s2 = 2"
    using h1 by (simp_all add: s2_def go_back_def py_index_def Let_def)
  have h3: "history (set_directory env F s2) = [A, B, C, resolve env F]"
       "history_index (set_directory env F s2) = 3"
    using g h2 by (simp_all add: set_directory_def history_push_def py_slice_to_def Let_def)
  show "let s0 = \<lparr>current_path = E, history = [A, B, C, D, E], history_index = 4, status = m\<rparr>;
            s2 = snd (go_back env (snd (go_back env s0)));
            s3 = set_directory env F s2
        in history_index s2 = 2 \<and> history s2 = [A, B, C, D, E]
           \<and> history s3 = [A, B, C, resolve env F] \<and> history_index s3 = 3"
    using h2 h3 unfolding s2_def s1_def s0_def by (simp add: Let_def)
qed

theorem push_discards_forward_branch_witness:
  "history (history_push \<lparr>current_path = [''f''], history = [[''a''], [''b''], [''c'']],
                          history_index = 1, status = []\<rparr>) = [[''a''], [''b''], [''f'']]
   \<and> history (set_directory plain_env [''f'']
        (snd (go_back plain_env (snd (go_back plain_env
           \<lparr>current_path = [''e''], history = [[''a''], [''b''], [''c''], [''d''], [''e'']],
            history_index = 4, status = []\<rparr>)))))
      = [[''a''], [''b''], [''c''], [''f'']]"
  using push_discards_forward_branch
    [of "\<lparr>current_path = [''f''], history = [[''a''], [''b''], [''c'']],
          history_index = 1, status = []\<rparr>"
        plain_env "[''f'']" "[''e'']" "[''a'']" "[''b'']" "[''c'']" "[''d'']" "[]"]
  by (simp add: plain_env_def Let_def)

text \<open>
  Claim C9. In every state reachable from \<open>tab_init\<close> by \<open>set_directory\<close>,
  \<open>go_back\<close> and \<open>go_forward\<close>, the entries are non-empty and
  \<open>0 \<le> history_index < length entries\<close>; \<open>go_back\<close> and \<open>go_forward\<close> return
  (they never raise), and at index 0, respectively at the last index, they return
  \<open>False\<close> and leave the state as it is.
\<close>

theorem reachable_history_in_range:
  assumes "reachable s"
  shows "history s \<noteq> [] \<and> 0 \<le> history_index s \<and> history_index s < int (length (history s))
     \<and> (\<exists>b. fst (go_back env s) = Returned b) \<and> (\<exists>b. fst (go_forward env s) = Returned b)
     \<and> (history_index s = 0 \<longrightarrow> go_back env s = (Returned False, s))
     \<and> (history_index s = int (length (history s)) - 1 \<longrightarrow> go_forward env s = (Returned False, s))"
proof -
  have ok: "hist_ok s" using assms by (rule reachable_ok)
  have a: "history s \<noteq> [] \<and> 0 \<le> history_index s \<and> history_index s < int (length (history s))"
    using ok by (simp add: hist_ok_def)
  have b: "history_index s = 0 \<longrightarrow> go_back env s = (Returned False, s)"
    by (simp add: go_back_def)
  have c: "history_index s = int (length (history s)) - 1 \<longrightarrow> go_forward env s = (Returned False, s)"
    by (simp add: go_forward_def)
  show ?thesis
    using a b c go_back_returns [OF ok, of env] go_forward_returns [OF ok, of env] by blast
qed

theorem reachable_history_in_range_witness:
  "history (snd (go_back plain_env (set_directory plain_env [''tmp''] (tab_init plain_env [''home'']))))
     = [[''home''], [''tmp'']]
   \<and> history_index (snd (go_back plain_env (set_directory plain_env [''tmp''] (tab_init plain_env [''home''])))) = 0
   \<and> fst (go_back plain_env
        (snd (go_back plain_env (set_directory plain_env [''tmp''] (tab_init plain_env [''home''])))))
      = Returned False"
proof -
  let ?s = "snd (go_back plain_env (set_directory plain_env [''tmp''] (tab_init plain_env [''home''])))"
  have r: "reachable ?s"
    by (intro reachable.intros)
  have i: "history_index ?s = 0" "history ?s = [[''home''], [''tmp'']]"
    by (simp_all add: go_back_def set_directory_def history_push_def tab_init_def plain_env_def
        py_index_def py_slice_to_def is_device_or_media_def show_path_def Let_def)
  show ?thesis
    using reachable_history_in_range [OF r, of plain_env] i by simp
qed

text \<open>
  Claim C10. \<open>go_back\<close> and \<open>go_forward\<close> leave the entries list as it is, and so
  does any sequence of such calls; only \<open>history_index\<close> (and the current path and
  the status line) change.
\<close>

theorem back_forward_keep_entries:
  "history (snd (go_back env s)) = history s
   \<and> history (snd (go_forward env s)) = history s
   \<and> history (nav_calls env cs s) = history s"
proof -
  have "history (nav_calls env cs s) = history s"
  proof (induction cs arbitrary: s)
    case Nil
    show ?case by simp
  next
    case (Cons c cs)
    show ?case
      by (cases c) (simp_all add: Cons.IH go_back_history go_forward_history)
  qed
  then show ?thesis
    by (simp add: go_back_history go_forward_history)
qed

theorem back_forward_keep_entries_witness:
  "history (nav_calls plain_env [Back, Back, Forward]
      \<lparr>current_path = [''c''], history = [[''a''], [''b''], [''c'']], history_index = 2, status = []\<rparr>)
     = [[''a''], [''b''], [''c'']]
   \<and> history_index (nav_calls plain_env [Back, Back, Forward]
      \<lparr>current_path = [''c''], history = [[''a''], [''b''], [''c'']], history_index = 2, status = []\<rparr>) = 1"
proof -
  let ?s = "\<lparr>current_path = [''c''], history = [[''a''], [''b''], [''c'']], history_index = 2, status = []\<rparr>"
  have "history_index (nav_calls plain_env [Back, Back, Forward] ?s) = 1"
    by (simp add: go_back_def go_forward_def py_index_def plain_env_def Let_def)
  then show ?thesis
    using back_forward_keep_entries [of plain_env ?s "[Back, Back, Forward]"] by simp
qed


section \<open>Device mounting: the claims\<close>

lemma py_in_append: "py_in needle (needle @ rest)"
proof (cases "needle @ rest")
  case Nil
  then show ?thesis by simp
next
  case (Cons c cs)
  have "prefix needle (needle @ rest)" by simp
  then show ?thesis using Cons by simp
qed

lemma text_lines_line: "CHR 0x0A \<notin> set l \<Longrightarrow> text_lines (l @ CHR 0x0A # rest) = l # text_lines rest"
  by (induction l) auto

text \<open>
  Claim C5, evaluated on the code. With only the partition \<^verbatim>\<open>/dev/sdb1\<close> in
  the mount table, \<open>is_device_mounted\<close> answers \<open>True\<close> for the disk
  \<^verbatim>\<open>/dev/sdb\<close>, which is no device entry of the table: the test is a substring
  test on the whole line.
\<close>

theorem is_device_mounted_substring:
  "is_device_mounted (Some [''/dev/sdb1 /media/usb ext4 rw,relatime 0 0'' @ nl]) [''dev'', ''sdb''] = True
   \<and> is_mounted_exact [''/dev/sdb1 /media/usb ext4 rw,relatime 0 0'' @ nl] [''dev'', ''sdb''] = False"
  by (simp add: is_device_mounted_def is_mounted_exact_def mount_table_device_def show_path_def nl_def)

text \<open>The direction that does hold: an exact device entry is always reported.\<close>

lemma is_mounted_exact_reported:
  "is_mounted_exact mounts d \<Longrightarrow> is_device_mounted (Some mounts) d"
proof -
  assume "is_mounted_exact mounts d"
  then obtain line where l: "line \<in> set mounts" "takeWhile (\<lambda>c. c \<noteq> CHR '' '') line = show_path d"
    by (auto simp: is_mounted_exact_def mount_table_device_def list_ex_iff)
  have "line = show_path d @ dropWhile (\<lambda>c. c \<noteq> CHR '' '') line"
    using l(2) takeWhile_dropWhile_id [of "\<lambda>c. c \<noteq> CHR '' ''" line] by simp
  then have "py_in (show_path d) line"
    using py_in_append [of "show_path d" "dropWhile (\<lambda>c. c \<noteq> CHR '' '') line"] by simp
  then show ?thesis
    using l(1) by (auto simp: is_device_mounted_def list_ex_iff)
qed

text \<open>
  Claim C6 as stated fails on the code: on a non-zero exit the failure text is not the
  helper's standard error verbatim but that text behind a prefix naming the device, and
  \<open>unmount_device\<close> shows the same kind of box, returning nothing.
\<close>

theorem mount_failure_text_counterexample:
  "mount_device (helper_exits 1 ''boom'') [''dev'', ''sdb1'']
     = (False, [WarningBox ''Error al montar'' (''No se pudo montar /dev/sdb1:'' @ nl @ ''boom'')],
        [mount_script [''dev'', ''sdb1'']])
   \<and> ''No se pudo montar /dev/sdb1:'' @ nl @ ''boom'' \<noteq> ''boom''"
  by (simp add: mount_device_def helper_exits_def show_path_def)

text \<open>
  Claim C6, amended. When no step of the call raises, \<open>mount_device\<close> returns
  \<open>True\<close> exactly when the helper exits with code zero; on a non-zero exit it returns
  \<open>False\<close> and shows one warning whose text is the prefix naming the device followed
  by the helper's standard error, unchanged. \<open>unmount_device\<close> returns no value:
  it emits its status message exactly on exit code zero and otherwise shows the warning
  built the same way. Each call runs the helper once, on a script of two lines: the
  interpreter line and one \<^verbatim>\<open>udisksctl\<close> command for the device (the device
  path containing no line break).
\<close>

theorem mount_unmount_by_exit_code:
  assumes "write_error env = None" "chmod_error env = None" "unlink_error env = None"
    and "pkexec env (mount_script d) = Inr (rc, err)"
    and "pkexec env (unmount_script d) = Inr (rc', err')"
    and "CHR 0x0A \<notin> set (show_path d)"
  shows "(fst (mount_device env d) \<longleftrightarrow> rc = 0)
     \<and> (rc \<noteq> 0 \<longrightarrow> fst (snd (mount_device env d))
            = [WarningBox ''Error al montar'' (''No se pudo montar '' @ show_path d @ '':'' @ nl @ err)])
     \<and> (rc = 0 \<longrightarrow> fst (snd (mount_device env d))
            = [StatusMessage (''Dispositivo montado: '' @ show_path d)])
     \<and> (rc' \<noteq> 0 \<longrightarrow> fst (unmount_device env d)
            = [WarningBox ''Error al desmontar'' (''No se pudo desmontar '' @ show_path d @ '':'' @ nl @ err')])
     \<and> (rc' = 0 \<longrightarrow> fst (unmount_device env d)
            = [StatusMessage (''Dispositivo desmontado: '' @ show_path d)])
     \<and> snd (snd (mount_device env d)) = [mount_script d]
     \<and> snd (unmount_device env d) = [unmount_script d]
     \<and> text_lines (mount_script d) = [''#!/bin/bash'', ''udisksctl mount -b '' @ show_path d]
     \<and> text_lines (unmount_script d) = [''#!/bin/bash'', ''udisksctl unmount -b '' @ show_path d]"
proof -
  have m: "mount_device env d =
      (if rc = 0 then (True, [StatusMessage (''Dispositivo montado: '' @ show_path d)], [mount_script d])
       else (False, [WarningBox ''Error al montar'' (''No se pudo montar '' @ show_path d @ '':'' @ nl @ err)],
             [mount_script d]))"
    using assms(1-4) by (simp add: mount_device_def)
  have u: "unmount_device env d =
      (if rc' = 0 then ([StatusMessage (''Dispositivo desmontado: '' @ show_path d)], [unmount_script d])
       else ([WarningBox ''Error al desmontar'' (''No se pudo desmontar '' @ show_path d @ '':'' @ nl @ err')],
             [unmount_script d]))"
    using assms(1-3,5) by (simp add: unmount_device_def)
  have sh: "CHR 0x0A \<notin> set ''#!/bin/bash''" by simp
  have c1: "CHR 0x0A \<notin> set (''udisksctl mount -b '' @ show_path d)"
    using assms(6) by simp
  have c2: "CHR 0x0A \<notin> set (''udisksctl unmount -b '' @ show_path d)"
    using assms(6) by simp
  have l1: "text_lines (mount_script d) = [''#!/bin/bash'', ''udisksctl mount -b '' @ show_path d]"
    unfolding mount_script_def nl_def
    using text_lines_line [OF sh, of "(''udisksctl mount -b '' @ show_path d) @ [CHR 0x0A]"]
          text_lines_line [OF c1, of "[]"]
    by simp
  have l2: "text_lines (unmount_script d) = [''#!/bin/bash'', ''udisksctl unmount -b '' @ show_path d]"
    unfolding unmount_script_def nl_def
    using text_lines_line [OF sh, of "(''udisksctl unmount -b '' @ show_path d) @ [CHR 0x0A]"]
          text_lines_line [OF c2, of "[]"]
    by simp
  show ?thesis
    using m u l1 l2 by simp
qed

theorem mount_unmount_by_exit_code_witness:
  "fst (mount_device (helper_exits 0 []) [''dev'', ''sdb1''])
   \<and> fst (unmount_device (helper_exits 0 []) [''dev'', ''sdb1''])
        = [StatusMessage ''Dispositivo desmontado: /dev/sdb1'']
   \<and> text_lines (mount_script [''dev'', ''sdb1'']) = [''#!/bin/bash'', ''udisksctl mount -b /dev/sdb1'']"
  using mount_unmount_by_exit_code
    [of "helper_exits 0 []" "[''dev'', ''sdb1'']" 0 "[]" 0 "[]"]
  by (simp add: helper_exits_def show_path_def)


section \<open>The transfer engine: progress events\<close>

lemma progress_ok_emit: "progress_ok tot st \<Longrightarrow> progress_ok tot (emit tot p st)"
  by (cases st) (auto simp: progress_ok_def)

lemma progress_ok_fs: "progress_ok tot (fs, dn, evs) \<Longrightarrow> progress_ok tot (fs', dn, evs)"
  by (simp add: progress_ok_def)

lemma progress_ok_copy_files:
  "progress_ok tot st \<Longrightarrow> progress_ok tot (snd (copy_files tot root tdir files st))"
proof (induction files arbitrary: st)
  case Nil
  then show ?case by simp
next
  case (Cons f files)
  obtain fs dn evs where st: "st = (fs, dn, evs)" by (cases st) auto
  show ?case
  proof (cases "copy2 fs (root @ [f]) (tdir @ [f])")
    case (Inl e)
    then show ?thesis using Cons.prems st by simp
  next
    case (Inr fs1)
    have "progress_ok tot (emit tot (root @ [f]) (fs1, dn, evs))"
      using Cons.prems st progress_ok_fs progress_ok_emit by blast
    then show ?thesis using Inr st Cons.IH by simp
  qed
qed

lemma progress_ok_merge_walk:
  "progress_ok tot st \<Longrightarrow> progress_ok tot (snd (merge_walk tot p target triples st))"
proof (induction triples arbitrary: st)
  case Nil
  then show ?case by simp
next
  case (Cons t triples)
  obtain root dirs files where t: "t = (root, dirs, files)" by (cases t) auto
  obtain fs dn evs where st: "st = (fs, dn, evs)" by (cases st) auto
  show ?case
  proof (cases "mkdir_p fs (target @ drop (length p) root)")
    case (Inl e)
    then show ?thesis using Cons.prems st t by simp
  next
    case (Inr fs1)
    let ?r = "copy_files tot root (target @ drop (length p) root) files (fs1, dn, evs)"
    have ok: "progress_ok tot (snd ?r)"
      using Cons.prems st progress_ok_fs progress_ok_copy_files by blast
    show ?thesis
    proof (cases "fst ?r")
      case None
      then have "merge_walk tot p target (t # triples) st = merge_walk tot p target triples (snd ?r)"
        using Inr st t by (cases ?r) simp
      then show ?thesis using Cons.IH [OF ok] by simp
    next
      case (Some e)
      then have "merge_walk tot p target (t # triples) st = (Some e, snd ?r)"
        using Inr st t by (cases ?r) simp
      then show ?thesis using ok by simp
    qed
  qed
qed

lemma progress_ok_transfer_item:
  "transfer_item ls opk tot dest p st = Some (r, st') \<Longrightarrow> progress_ok tot st \<Longrightarrow> progress_ok tot st'"
proof -
  assume a: "transfer_item ls opk tot dest p st = Some (r, st')" and ok: "progress_ok tot st"
  obtain fs dn evs where st: "st = (fs, dn, evs)" by (cases st) auto
  have e: "\<And>fs1. progress_ok tot (emit tot p (fs1, dn, evs))"
    using ok st progress_ok_fs progress_ok_emit by blast
  have k: "\<And>fs1. progress_ok tot (fs1, dn, evs)"
    using ok st progress_ok_fs by blast
  show ?thesis
  proof (cases opk)
    case Copy
    show ?thesis
      using a ok e k progress_ok_merge_walk [OF ok, of p "dest @ basename p" "walk ls fs p"]
      unfolding Copy st
      by (auto simp: Let_def split: if_splits prod.splits option.splits sum.splits)
  next
    case Move
    show ?thesis
      using a e k unfolding Move st
      by (auto split: prod.splits option.splits)
  qed
qed

lemma progress_ok_transfer:
  "transfer ls opk tot dest ps st = Some (r, st') \<Longrightarrow> progress_ok tot st \<Longrightarrow> progress_ok tot st'"
proof (induction ps arbitrary: st)
  case Nil
  then show ?case by simp
next
  case (Cons p ps)
  show ?case
  proof (cases "transfer_item ls opk tot dest p st")
    case None
    then show ?thesis using Cons.prems by simp
  next
    case (Some a)
    obtain r1 st1 where a: "a = (r1, st1)" by (cases a) auto
    have ok1: "progress_ok tot st1"
      using progress_ok_transfer_item Some a Cons.prems(2) by blast
    show ?thesis
    proof (cases r1)
      case None
      then show ?thesis using Cons.prems(1) Some a Cons.IH [OF _ ok1] by simp
    next
      case (Some e)
      then show ?thesis using Cons.prems(1) \<open>transfer_item ls opk tot dest p st = Some a\<close> a ok1 by simp
    qed
  qed
qed

lemma run_percentages:
  assumes "run ls opk items dest fs = Some (evs, t, fs')"
  shows "map fst evs = map (\<lambda>k. int (k * 100 div total_files ls fs items)) [1..<Suc (length evs)]"
proof -
  have ok0: "progress_ok (total_files ls fs items) (fs, 0, [])"
    by (simp add: progress_ok_def)
  obtain r st' where tr: "transfer ls opk (total_files ls fs items) dest items (fs, 0, []) = Some (r, st')"
    using assms by (auto simp: run_def split: option.splits)
  have ok: "progress_ok (total_files ls fs items) st'"
    using progress_ok_transfer [OF tr ok0] .
  obtain fs1 dn evs1 where st': "st' = (fs1, dn, evs1)" by (cases st') auto
  have "evs1 = evs"
    using assms tr st' by (auto simp: run_def split: option.splits)
  then show ?thesis using ok st' by (simp add: progress_ok_def)
qed



lemma total_files_pos: "1 \<le> total_files ls fs items"
  by (simp add: total_files_def)

text \<open>
  Claim C8, evaluated on the code. Two empty directories are copied to a directory
  that has neither: the pre-scan finds no file, so the total is 1, and each cloned
  directory counts as one unit. The second event carries 200.
\<close>

theorem percent_exceeds_100:
  "run no_skips Copy [[''src'', ''a''], [''src'', ''b'']] [''dst'']
     [([''src''], Dir), ([''src'', ''a''], Dir), ([''src'', ''b''], Dir), ([''dst''], Dir)]
   = Some ([(100, ''/src/a''), (200, ''/src/b'')], Completed,
       [([''src''], Dir), ([''src'', ''a''], Dir), ([''src'', ''b''], Dir), ([''dst''], Dir),
        ([''dst'', ''a''], Dir), ([''dst'', ''b''], Dir)])
   \<and> total_files no_skips [([''src''], Dir), ([''src'', ''a''], Dir), ([''src'', ''b''], Dir), ([''dst''], Dir)]
        [[''src'', ''a''], [''src'', ''b'']] = 1"
  by code_simp

text \<open>
  The parts of claim C8 that hold on every run: the total is at least 1 and is computed
  once, before the first transfer; the \<open>k\<close>-th event carries \<open>k * 100 div total\<close>,
  which is never negative.
\<close>

lemma percent_formula:
  assumes "run ls opk items dest fs = Some (evs, t, fs')" "k < length evs"
  shows "fst (evs ! k) = int (Suc k * 100 div total_files ls fs items)"
    and "0 \<le> fst (evs ! k)"
proof -
  have "map fst evs ! k = map (\<lambda>k. int (k * 100 div total_files ls fs items)) [1..<Suc (length evs)] ! k"
    using run_percentages [OF assms(1)] by simp
  then show "fst (evs ! k) = int (Suc k * 100 div total_files ls fs items)"
    using assms(2) by (simp add: nth_upt del: upt_Suc)
  then show "0 \<le> fst (evs ! k)" by simp
qed


section \<open>The transfer engine: what a copy touches, and how many events it emits\<close>

lemma map_of_filter_key: "P k \<Longrightarrow> map_of (filter (\<lambda>x. P (fst x)) xs) k = map_of xs k"
  by (induction xs) auto

lemma same_under_lookup: "same_under p fs fs' \<Longrightarrow> prefix p q \<Longrightarrow> lookup fs q = lookup fs' q"
  unfolding same_under_def lookup_def
  using map_of_filter_key [of "prefix p" q fs] map_of_filter_key [of "prefix p" q fs'] by simp






lemma filter_update_other:
  "\<not> P k \<Longrightarrow> filter (\<lambda>x. P (fst x)) (AList.update k v xs) = filter (\<lambda>x. P (fst x)) xs"
  by (induction xs) auto

lemma outside_near: "outside dest p \<Longrightarrow> near dest k \<Longrightarrow> \<not> prefix p k"
  unfolding outside_def near_def
  using prefix_same_cases prefix_order.trans by blast

lemma lookup_update: "k \<noteq> [] \<Longrightarrow> lookup (AList.update k v fs) q = (if q = k then Some v else lookup fs q)"
  by (simp add: lookup_def update_conv')

lemma touch_near_update:
  assumes "near dest k" "k \<noteq> []" "is_dir fs k \<longrightarrow> v = Dir" "is_file fs k \<longrightarrow> v \<noteq> Dir"
  shows "touch_near dest fs (AList.update k v fs)"
proof -
  have "\<And>p. outside dest p \<Longrightarrow> same_under p fs (AList.update k v fs)"
    unfolding same_under_def
    using outside_near [OF _ assms(1)] filter_update_other [of "prefix _" k v fs] by auto
  moreover have "\<And>q. fs_exists fs q \<Longrightarrow> fs_exists (AList.update k v fs) q"
    using assms(2) by (simp add: fs_exists_def lookup_update)
  moreover have "\<And>q. is_dir fs q \<Longrightarrow> is_dir (AList.update k v fs) q"
    using assms(2,3) by (auto simp: is_dir_def lookup_update)
  moreover have "\<And>q. is_file fs q \<Longrightarrow> is_file (AList.update k v fs) q"
    using assms(2,4) by (cases v) (auto simp: is_file_def lookup_update split: option.splits entry.splits)
  ultimately show ?thesis unfolding touch_near_def by blast
qed

lemma touch_near_refl: "touch_near dest fs fs"
  by (simp add: touch_near_def same_under_def)

lemma touch_near_trans: "touch_near dest fs fs1 \<Longrightarrow> touch_near dest fs1 fs2 \<Longrightarrow> touch_near dest fs fs2"
  by (simp add: touch_near_def same_under_def)

lemma near_prefixes: "near dest q \<Longrightarrow> prefix k q \<Longrightarrow> near dest k"
  unfolding near_def using prefix_same_cases prefix_order.trans by blast

lemma copy2_written:
  assumes "copy2 fs src dst = Inr fs'"
  shows "\<exists>k c. fs' = AList.update k (File c) fs \<and> lookup fs src = Some (File c) \<and> k \<noteq> []
           \<and> k = (if is_dir fs dst then dst @ basename src else dst) \<and> \<not> is_dir fs k"
proof -
  let ?k = "if is_dir fs dst then dst @ basename src else dst"
  obtain c where c: "lookup fs src = Some (File c)" "fs' = AList.update ?k (File c) fs"
      "\<not> is_dir fs ?k"
    and ne: "\<not> (fs_exists fs src \<and> src = ?k)"
    using assms unfolding copy2_def Let_def
    by (auto split: if_splits option.splits entry.splits)
  have "?k \<noteq> []"
  proof
    assume e: "?k = []"
    then have "dst = []" by (auto split: if_splits)
    then have "basename src = []" using e by (simp add: is_dir_def lookup_def)
    then have "src = []" by (simp add: basename_def split: if_splits)
    then show False using c(1) by (simp add: lookup_def)
  qed
  then show ?thesis using c by blast
qed

lemma copy2_touch:
  assumes "copy2 fs src dst = Inr fs'" "prefix dest dst"
  shows "touch_near dest fs fs'"
proof -
  obtain k c where k: "fs' = AList.update k (File c) fs" "k \<noteq> []"
      "k = (if is_dir fs dst then dst @ basename src else dst)" "\<not> is_dir fs k"
    using copy2_written [OF assms(1)] by blast
  have "prefix dest k" using k(3) assms(2) by (auto split: if_splits)
  then have "near dest k" by (simp add: near_def)
  then show ?thesis using k(1,2,4) touch_near_update [of dest k fs "File c"] by simp
qed

lemma mkdirs_touch:
  "mkdirs base cs fs = Inr fs' \<Longrightarrow> near dest (base @ cs) \<Longrightarrow> touch_near dest fs fs'"
proof (induction cs arbitrary: base fs)
  case Nil
  then show ?case by (simp add: touch_near_refl)
next
  case (Cons c cs)
  have n: "near dest ((base @ [c]) @ cs)" using Cons.prems(2) by simp
  have nk: "near dest (base @ [c])"
    using near_prefixes [OF n, of "base @ [c]"] by simp
  show ?case
  proof (cases "lookup fs (base @ [c])")
    case None
    then have "mkdirs (base @ [c]) cs (AList.update (base @ [c]) Dir fs) = Inr fs'"
      using Cons.prems(1) by simp
    then have "touch_near dest (AList.update (base @ [c]) Dir fs) fs'"
      using Cons.IH n by blast
    moreover have "touch_near dest fs (AList.update (base @ [c]) Dir fs)"
      using nk None touch_near_update [of dest "base @ [c]" fs Dir]
      by (simp add: is_dir_def is_file_def)
    ultimately show ?thesis using touch_near_trans by blast
  next
    case (Some e)
    then show ?thesis using Cons.prems(1) Cons.IH n by (cases e) auto
  qed
qed

lemma mkdir_p_touch: "mkdir_p fs q = Inr fs' \<Longrightarrow> near dest q \<Longrightarrow> touch_near dest fs fs'"
  unfolding mkdir_p_def using mkdirs_touch [of "[]" q fs fs' dest] by simp

lemma copy_files_count:
  "copy_files tot root tdir files (fs, dn, evs) = (None, (fs', dn', evs')) \<Longrightarrow> prefix dest tdir
   \<Longrightarrow> length evs' = length evs + length files \<and> touch_near dest fs fs'"
proof (induction files arbitrary: fs dn evs)
  case Nil
  then show ?case by (simp add: touch_near_refl)
next
  case (Cons f files)
  show ?case
  proof (cases "copy2 fs (root @ [f]) (tdir @ [f])")
    case (Inl e)
    then show ?thesis using Cons.prems(1) by simp
  next
    case (Inr fs1)
    have t1: "touch_near dest fs fs1"
      using copy2_touch [OF Inr] Cons.prems(2) by simp
    have "copy_files tot root tdir files
            (fs1, dn + 1, evs @ [(int ((dn + 1) * 100 div tot), show_path (root @ [f]))])
          = (None, (fs', dn', evs'))"
      using Cons.prems(1) Inr by simp
    then have "length evs' = length (evs @ [(int ((dn + 1) * 100 div tot), show_path (root @ [f]))]) + length files
         \<and> touch_near dest fs1 fs'"
      using Cons.IH Cons.prems(2) by blast
    then show ?thesis using t1 touch_near_trans by auto
  qed
qed

lemma merge_walk_count:
  "merge_walk tot p target triples (fs, dn, evs) = (None, (fs', dn', evs')) \<Longrightarrow> prefix dest target
   \<Longrightarrow> length evs' = length evs + units triples \<and> touch_near dest fs fs'"
proof (induction triples arbitrary: fs dn evs)
  case Nil
  then show ?case by (simp add: touch_near_refl units_def)
next
  case (Cons t triples)
  obtain root dirs files where t: "t = (root, dirs, files)" by (cases t) auto
  let ?td = "target @ drop (length p) root"
  have pd: "prefix dest ?td" using Cons.prems(2) by (metis prefix_prefix)
  show ?case
  proof (cases "mkdir_p fs ?td")
    case (Inl e)
    then show ?thesis using Cons.prems(1) t by simp
  next
    case (Inr fs1)
    have t1: "touch_near dest fs fs1"
      using mkdir_p_touch [OF Inr] pd by (simp add: near_def)
    obtain r st2 where cf: "copy_files tot root ?td files (fs1, dn, evs) = (r, st2)"
      by (cases "copy_files tot root ?td files (fs1, dn, evs)") auto
    obtain fs2 dn2 evs2 where st2: "st2 = (fs2, dn2, evs2)" by (cases st2) auto
    show ?thesis
    proof (cases r)
      case (Some e)
      then show ?thesis using Cons.prems(1) t Inr cf by simp
    next
      case None
      have c2: "length evs2 = length evs + length files \<and> touch_near dest fs1 fs2"
        using copy_files_count [of tot root ?td files fs1 dn evs fs2 dn2 evs2 dest] cf None st2 pd by simp
      have "merge_walk tot p target triples (fs2, dn2, evs2) = (None, (fs', dn', evs'))"
        using Cons.prems(1) t Inr cf None st2 by simp
      then have "length evs' = length evs2 + units triples \<and> touch_near dest fs2 fs'"
        using Cons.IH Cons.prems(2) by blast
      then show ?thesis
        using c2 t1 t touch_near_trans by (auto simp: units_def)
    qed
  qed
qed
















section \<open>The transfer engine: merging a directory into an existing one\<close>

lemma walk_roots:
  "(root, dirs, files) \<in> set (walk ls fs d)
   \<Longrightarrow> prefix d root \<and> is_dir fs root \<and> dirs = subdirs fs root \<and> files = nondirs fs root"
proof (induction ls fs d rule: walk.induct)
  case (1 ls fs topdir)
  show ?case
  proof (cases "is_dir fs topdir \<and> \<not> unreadable ls topdir")
    case False
    then show ?thesis using "1.prems" walk.simps [of ls fs topdir] by auto
  next
    case True
    then have "(root, dirs, files) = (topdir, subdirs fs topdir, nondirs fs topdir)
        \<or> (\<exists>n\<in>set (subdirs fs topdir). \<not> is_link ls (topdir @ [n])
              \<and> (root, dirs, files) \<in> set (walk ls fs (topdir @ [n])))"
      using "1.prems" walk.simps [of ls fs topdir] by (auto split: if_splits)
    then show ?thesis
    proof
      assume "(root, dirs, files) = (topdir, subdirs fs topdir, nondirs fs topdir)"
      then show ?thesis using True by simp
    next
      assume "\<exists>n\<in>set (subdirs fs topdir). \<not> is_link ls (topdir @ [n])
              \<and> (root, dirs, files) \<in> set (walk ls fs (topdir @ [n]))"
      then obtain n where n: "n \<in> set (subdirs fs topdir)" "\<not> is_link ls (topdir @ [n])"
          "(root, dirs, files) \<in> set (walk ls fs (topdir @ [n]))"
        by blast
      have "prefix (topdir @ [n]) root \<and> is_dir fs root \<and> dirs = subdirs fs root \<and> files = nondirs fs root"
        using "1.IH" [OF True n] .
      then show ?thesis using append_prefixD by blast
    qed
  qed
qed

lemma walk_between:
  "(root, dirs, files) \<in> set (walk ls fs d) \<Longrightarrow> prefix d x \<Longrightarrow> prefix x root \<Longrightarrow> is_dir fs x"
proof (induction ls fs d rule: walk.induct)
  case (1 ls fs topdir)
  show ?case
  proof (cases "is_dir fs topdir \<and> \<not> unreadable ls topdir")
    case False
    then show ?thesis using "1.prems" walk.simps [of ls fs topdir] by auto
  next
    case True
    then have "(root, dirs, files) = (topdir, subdirs fs topdir, nondirs fs topdir)
        \<or> (\<exists>n\<in>set (subdirs fs topdir). \<not> is_link ls (topdir @ [n])
              \<and> (root, dirs, files) \<in> set (walk ls fs (topdir @ [n])))"
      using "1.prems"(1) walk.simps [of ls fs topdir] by (auto split: if_splits)
    then show ?thesis
    proof
      assume "(root, dirs, files) = (topdir, subdirs fs topdir, nondirs fs topdir)"
      then have "x = topdir" using "1.prems"(2,3) by (simp add: prefix_order.antisym)
      then show ?thesis using True by simp
    next
      assume "\<exists>n\<in>set (subdirs fs topdir). \<not> is_link ls (topdir @ [n])
              \<and> (root, dirs, files) \<in> set (walk ls fs (topdir @ [n]))"
      then obtain n where n: "n \<in> set (subdirs fs topdir)" "\<not> is_link ls (topdir @ [n])"
          "(root, dirs, files) \<in> set (walk ls fs (topdir @ [n]))"
        by blast
      have pr: "prefix (topdir @ [n]) root" using walk_roots [OF n(3)] by simp
      show ?thesis
      proof (cases "x = topdir")
        case True
        then show ?thesis using \<open>is_dir fs topdir \<and> \<not> unreadable ls topdir\<close> by simp
      next
        case False
        obtain ys where ys: "x = topdir @ ys" using "1.prems"(2) by (auto simp: prefix_def)
        then obtain y ys' where y: "ys = y # ys'" using False by (cases ys) auto
        obtain zs where zs: "root = topdir @ n # zs" using pr by (auto simp: prefix_def)
        have "prefix (topdir @ y # ys') (topdir @ n # zs)" using "1.prems"(3) ys y zs by simp
        then have "y = n" by simp
        then have "prefix (topdir @ [n]) x" using ys y by simp
        then show ?thesis using "1.IH" [OF True n] "1.prems"(3) by simp
      qed
    qed
  qed
qed

lemma nondirs_facts: "f \<in> set (nondirs fs d) \<Longrightarrow> \<not> is_dir fs (d @ [f]) \<and> fs_exists fs (d @ [f])"
proof -
  assume a: "f \<in> set (nondirs fs d)"
  then have "d @ [f] \<in> fst ` set fs" using child_names_key [of f fs d] by (simp add: nondirs_def)
  then have "map_of fs (d @ [f]) \<noteq> None" by (simp add: map_of_eq_None_iff)
  then show ?thesis using a by (simp add: nondirs_def fs_exists_def lookup_def)
qed

lemma carries_refl: "carries ls fs0 p target fs fs"
  by (simp add: carries_def)

lemma carries_trans: "carries ls fs0 p target fs fs1 \<Longrightarrow> carries ls fs0 p target fs1 fs2 \<Longrightarrow> carries ls fs0 p target fs fs2"
  by (simp add: carries_def)

lemma landing_iff:
  "q \<in> set (landing ls fs p target)
   \<longleftrightarrow> (\<exists>root dirs files f. (root, dirs, files) \<in> set (walk ls fs p) \<and> f \<in> set files
         \<and> q = target @ drop (length p) root @ [f])"
  unfolding landing_def by (simp add: case_prod_unfold) force

lemma created_iff:
  "d \<in> set (created ls fs p target)
   \<longleftrightarrow> (\<exists>root dirs files. (root, dirs, files) \<in> set (walk ls fs p) \<and> d = target @ drop (length p) root)"
  by (force simp: created_def)

lemma root_split: "(root, dirs, files) \<in> set (walk ls fs p) \<Longrightarrow> p @ drop (length p) root = root"
  using walk_roots [of root dirs files ls fs p] by (auto simp: prefix_def)

lemma landing_source:
  assumes "(root, dirs, files) \<in> set (walk ls fs p)"
  shows "p @ drop (length target) (target @ drop (length p) root @ [f]) = root @ [f]"
  using root_split [OF assms] by (metis append.assoc append_eq_conv_conj)

lemma landing_source_file:
  assumes "q \<in> set (landing ls fs p target)"
  shows "\<exists>c. lookup fs (p @ drop (length target) q) = Some (File c)"
proof -
  obtain root dirs files f where w: "(root, dirs, files) \<in> set (walk ls fs p)" "f \<in> set files"
      "q = target @ drop (length p) root @ [f]"
    using assms landing_iff by blast
  have s: "p @ drop (length target) q = root @ [f]" using landing_source [OF w(1)] w(3) by simp
  have "f \<in> set (nondirs fs root)" using walk_roots [OF w(1)] w(2) by simp
  then have "\<not> is_dir fs (root @ [f]) \<and> fs_exists fs (root @ [f])" by (rule nondirs_facts)
  then show ?thesis
  proof (cases "lookup fs (root @ [f])")
    case None
    then show ?thesis using \<open>\<not> is_dir fs (root @ [f]) \<and> fs_exists fs (root @ [f])\<close>
      by (simp add: fs_exists_def)
  next
    case (Some e)
    then show ?thesis using s \<open>\<not> is_dir fs (root @ [f]) \<and> fs_exists fs (root @ [f])\<close>
      by (cases e) (simp_all add: is_dir_def)
  qed
qed

lemma mkdirs_pointwise:
  "mkdirs base cs fs = Inr fs' \<Longrightarrow>
     lookup fs' q = lookup fs q \<or> (lookup fs q = None \<and> lookup fs' q = Some Dir \<and> prefix q (base @ cs))"
proof (induction cs arbitrary: base fs)
  case Nil
  then show ?case by simp
next
  case (Cons c cs)
  show ?case
  proof (cases "lookup fs (base @ [c])")
    case None
    let ?fs1 = "AList.update (base @ [c]) Dir fs"
    have m: "mkdirs (base @ [c]) cs ?fs1 = Inr fs'" using Cons.prems None by simp
    have ih: "lookup fs' q = lookup ?fs1 q
        \<or> (lookup ?fs1 q = None \<and> lookup fs' q = Some Dir \<and> prefix q ((base @ [c]) @ cs))"
      using Cons.IH [OF m] .
    have u: "lookup ?fs1 q = (if q = base @ [c] then Some Dir else lookup fs q)"
      by (simp add: lookup_update)
    show ?thesis
    proof (cases "q = base @ [c]")
      case True
      then have "lookup fs' q = Some Dir" using ih u by auto
      then show ?thesis using True None by simp
    next
      case False
      then show ?thesis using ih u by auto
    qed
  next
    case (Some e)
    then show ?thesis using Cons.prems Cons.IH [of "base @ [c]" fs] by (cases e) auto
  qed
qed

lemma mkdirs_is_dir:
  "mkdirs base cs fs = Inr fs' \<Longrightarrow> is_dir fs base \<Longrightarrow> is_dir fs' (base @ cs)"
proof (induction cs arbitrary: base fs)
  case Nil
  then show ?case by simp
next
  case (Cons c cs)
  show ?case
  proof (cases "lookup fs (base @ [c])")
    case None
    let ?fs1 = "AList.update (base @ [c]) Dir fs"
    have m: "mkdirs (base @ [c]) cs ?fs1 = Inr fs'" using Cons.prems None by simp
    have "is_dir ?fs1 (base @ [c])" by (simp add: is_dir_def lookup_update)
    then show ?thesis using Cons.IH [OF m] by simp
  next
    case (Some e)
    then show ?thesis using Cons.prems Cons.IH [of "base @ [c]" fs] by (cases e) (auto simp: is_dir_def)
  qed
qed

lemma mkdir_p_pointwise:
  "mkdir_p fs d = Inr fs' \<Longrightarrow>
     lookup fs' q = lookup fs q \<or> (lookup fs q = None \<and> lookup fs' q = Some Dir \<and> prefix q d)"
  unfolding mkdir_p_def using mkdirs_pointwise [of "[]" d fs fs' q] by simp

lemma mkdir_p_is_dir: "mkdir_p fs d = Inr fs' \<Longrightarrow> is_dir fs' d"
  unfolding mkdir_p_def using mkdirs_is_dir [of "[]" d fs fs'] by (simp add: is_dir_def lookup_def)

lemma copy_step:
  assumes a1: "outside target p"
    and a2: "\<forall>q\<in>set (landing ls fs0 p target). \<not> is_dir fs0 q"
    and inv: "merge_inv ls fs0 p target fs"
    and tn: "touch_near target fs0 fs"
    and w: "(root, dirs, files) \<in> set (walk ls fs0 p)" "f \<in> set files"
    and c: "copy2 fs (root @ [f]) (target @ drop (length p) root @ [f]) = Inr fs1"
  shows "\<exists>c. fs1 = AList.update (target @ drop (length p) root @ [f]) (File c) fs
            \<and> lookup fs0 (root @ [f]) = Some (File c)"
proof -
  let ?q = "target @ drop (length p) root @ [f]"
  have ql: "?q \<in> set (landing ls fs0 p target)" using w landing_iff by blast
  have src: "p @ drop (length target) ?q = root @ [f]" by (rule landing_source [OF w(1)])
  have "f \<in> set (nondirs fs0 root)" using walk_roots [OF w(1)] w(2) by simp
  then have nd0: "\<not> is_dir fs0 (root @ [f])" using nondirs_facts by blast
  have pr: "prefix p (root @ [f])" using walk_roots [OF w(1)] by simp
  have nd: "\<not> is_dir fs ?q"
  proof
    assume d: "is_dir fs ?q"
    have "lookup fs ?q = lookup fs0 ?q
        \<or> (?q \<in> set (landing ls fs0 p target) \<and> lookup fs ?q = lookup fs0 (p @ drop (length target) ?q))
        \<or> (lookup fs0 ?q = None \<and> lookup fs ?q = Some Dir \<and> (\<exists>d\<in>set (created ls fs0 p target). prefix ?q d))"
      using inv unfolding merge_inv_def by blast
    then show False
    proof (elim disjE conjE)
      assume "lookup fs ?q = lookup fs0 ?q"
      then show False using d a2 ql by (simp add: is_dir_def)
    next
      assume "lookup fs ?q = lookup fs0 (p @ drop (length target) ?q)"
      then have "lookup fs ?q = lookup fs0 (root @ [f])" unfolding src .
      then show False using d nd0 by (simp add: is_dir_def)
    next
      assume "\<exists>d\<in>set (created ls fs0 p target). prefix ?q d"
      then obtain d' where d': "d' \<in> set (created ls fs0 p target)" "prefix ?q d'"
        by blast
      obtain root' dirs' files' where w': "(root', dirs', files') \<in> set (walk ls fs0 p)"
          and de: "d' = target @ drop (length p) root'"
        using d'(1) unfolding created_iff by blast
      have pq: "prefix ?q (target @ drop (length p) root')" using d'(2) de by simp
      have "prefix (drop (length p) root @ [f]) (drop (length p) root')" using pq by simp
      then have "prefix (p @ drop (length p) root @ [f]) (p @ drop (length p) root')" by simp
      then have "prefix (root @ [f]) root'"
        using root_split [OF w(1)] root_split [OF w'] by (metis append.assoc)
      then have "is_dir fs0 (root @ [f])" using walk_between [OF w' pr] by simp
      then show False using nd0 by simp
    qed
  qed
  obtain k c where k: "fs1 = AList.update k (File c) fs" "lookup fs (root @ [f]) = Some (File c)"
      "k = (if is_dir fs ?q then ?q @ basename (root @ [f]) else ?q)"
    using copy2_written [OF c] by blast
  have "same_under p fs0 fs" using tn a1 by (simp add: touch_near_def)
  then have "lookup fs0 (root @ [f]) = lookup fs (root @ [f])" using pr by (rule same_under_lookup)
  then show ?thesis using k nd by simp
qed

lemma copy_step_inv:
  assumes a1: "outside target p"
    and a2: "\<forall>q\<in>set (landing ls fs0 p target). \<not> is_dir fs0 q"
    and inv: "merge_inv ls fs0 p target fs"
    and tn: "touch_near target fs0 fs"
    and w: "(root, dirs, files) \<in> set (walk ls fs0 p)" "f \<in> set files"
    and c: "copy2 fs (root @ [f]) (target @ drop (length p) root @ [f]) = Inr fs1"
  shows "merge_inv ls fs0 p target fs1 \<and> carries ls fs0 p target fs fs1
       \<and> lookup fs1 (target @ drop (length p) root @ [f]) = lookup fs0 (root @ [f])"
proof -
  let ?q = "target @ drop (length p) root @ [f]"
  obtain c where u: "fs1 = AList.update ?q (File c) fs" and s: "lookup fs0 (root @ [f]) = Some (File c)"
    using copy_step [OF a1 a2 inv tn w c] by blast
  have ql: "?q \<in> set (landing ls fs0 p target)" using w landing_iff by blast
  have src: "p @ drop (length target) ?q = root @ [f]" by (rule landing_source [OF w(1)])
  have ne: "?q \<noteq> []" by simp
  have lk: "\<And>q'. lookup fs1 q' = (if q' = ?q then Some (File c) else lookup fs q')"
    unfolding u using lookup_update [OF ne] by simp
  have nd: "\<not> is_dir fs1 ?q" using lk by (simp add: is_dir_def)
  have i1: "merge_inv ls fs0 p target fs1"
    unfolding merge_inv_def
  proof
    fix q'
    show "lookup fs1 q' = lookup fs0 q'
        \<or> (q' \<in> set (landing ls fs0 p target) \<and> lookup fs1 q' = lookup fs0 (p @ drop (length target) q'))
        \<or> (lookup fs0 q' = None \<and> lookup fs1 q' = Some Dir \<and> (\<exists>d\<in>set (created ls fs0 p target). prefix q' d))"
    proof (cases "q' = ?q")
      case True
      have "lookup fs0 (p @ drop (length target) ?q) = Some (File c)" unfolding src by (rule s)
      moreover have "lookup fs1 ?q = Some (File c)" using lk by simp
      ultimately have "?q \<in> set (landing ls fs0 p target)
          \<and> lookup fs1 ?q = lookup fs0 (p @ drop (length target) ?q)"
        using ql by simp
      then show ?thesis unfolding True by blast
    next
      case False
      then have "lookup fs1 q' = lookup fs q'" using lk by simp
      then show ?thesis using inv unfolding merge_inv_def by metis
    qed
  qed
  have c1: "carries ls fs0 p target fs fs1"
    unfolding carries_def
  proof (intro conjI ballI allI impI)
    fix q' assume h: "q' \<in> set (landing ls fs0 p target)" "lookup fs q' = lookup fs0 (p @ drop (length target) q')"
    show "lookup fs1 q' = lookup fs0 (p @ drop (length target) q')"
    proof (cases "q' = ?q")
      case True
      have "lookup fs0 (p @ drop (length target) ?q) = Some (File c)" unfolding src by (rule s)
      moreover have "lookup fs1 ?q = Some (File c)" using lk by simp
      ultimately show ?thesis unfolding True by simp
    next
      case False
      then show ?thesis using lk h(2) by simp
    qed
  next
    fix q' assume d: "is_dir fs q'"
    have "fs1 = AList.update ?q (File c) fs" by (rule u)
    have "\<not> is_dir fs ?q"
    proof
      assume dq: "is_dir fs ?q"
      obtain k c' where k: "fs1 = AList.update k (File c') fs"
          "k = (if is_dir fs ?q then ?q @ basename (root @ [f]) else ?q)"
        using copy2_written [OF c] by blast
      then have "k = ?q @ [f]" using dq by (simp add: basename_def)
      then have "lookup fs1 ?q = lookup fs ?q" using k(1) by (simp add: lookup_update)
      then show False using dq nd by (simp add: is_dir_def)
    qed
    then have "q' \<noteq> ?q" using d by auto
    then show "is_dir fs1 q'" using d lk by (simp add: is_dir_def)
  qed
  show ?thesis using i1 c1 lk s by simp
qed

lemma mkdir_step:
  assumes inv: "merge_inv ls fs0 p target fs"
    and w: "(root, dirs, files) \<in> set (walk ls fs0 p)"
    and m: "mkdir_p fs (target @ drop (length p) root) = Inr fs1"
  shows "merge_inv ls fs0 p target fs1 \<and> carries ls fs0 p target fs fs1
       \<and> is_dir fs1 (target @ drop (length p) root)"
proof -
  let ?td = "target @ drop (length p) root"
  have pw: "\<And>q. lookup fs1 q = lookup fs q
        \<or> (lookup fs q = None \<and> lookup fs1 q = Some Dir \<and> prefix q ?td)"
    using mkdir_p_pointwise [OF m] by simp
  have keep: "\<And>q. lookup fs q \<noteq> None \<Longrightarrow> lookup fs1 q = lookup fs q"
  proof -
    fix q assume "lookup fs q \<noteq> None"
    then show "lookup fs1 q = lookup fs q" using pw [of q] by auto
  qed
  have tdc: "?td \<in> set (created ls fs0 p target)" using w created_iff by blast
  have i1: "merge_inv ls fs0 p target fs1"
    unfolding merge_inv_def
  proof
    fix q
    have iq: "lookup fs q = lookup fs0 q
        \<or> (q \<in> set (landing ls fs0 p target) \<and> lookup fs q = lookup fs0 (p @ drop (length target) q))
        \<or> (lookup fs0 q = None \<and> lookup fs q = Some Dir \<and> (\<exists>d\<in>set (created ls fs0 p target). prefix q d))"
      using inv unfolding merge_inv_def by blast
    show "lookup fs1 q = lookup fs0 q
        \<or> (q \<in> set (landing ls fs0 p target) \<and> lookup fs1 q = lookup fs0 (p @ drop (length target) q))
        \<or> (lookup fs0 q = None \<and> lookup fs1 q = Some Dir \<and> (\<exists>d\<in>set (created ls fs0 p target). prefix q d))"
    proof (cases "lookup fs1 q = lookup fs q")
      case True
      then show ?thesis using iq by simp
    next
      case False
      then have n: "lookup fs q = None" "lookup fs1 q = Some Dir" "prefix q ?td"
        using pw [of q] by auto
      have "lookup fs0 q = None"
        using iq n(1) landing_source_file [of q ls fs0 p target] by auto
      then show ?thesis using n tdc by blast
    qed
  qed
  have c1: "carries ls fs0 p target fs fs1"
    unfolding carries_def
  proof (intro conjI ballI allI impI)
    fix q assume "q \<in> set (landing ls fs0 p target)" "lookup fs q = lookup fs0 (p @ drop (length target) q)"
    then have "lookup fs q \<noteq> None" using landing_source_file [of q ls fs0 p target] by auto
    then show "lookup fs1 q = lookup fs0 (p @ drop (length target) q)"
      using keep \<open>lookup fs q = lookup fs0 (p @ drop (length target) q)\<close> by simp
  next
    fix q assume "is_dir fs q"
    then show "is_dir fs1 q" using keep [of q] by (simp add: is_dir_def)
  qed
  show ?thesis using i1 c1 mkdir_p_is_dir [OF m] by simp
qed

lemma copy_files_merge:
  assumes a1: "outside target p"
    and a2: "\<forall>q\<in>set (landing ls fs0 p target). \<not> is_dir fs0 q"
    and w: "(root, dirs, files0) \<in> set (walk ls fs0 p)"
  shows "set files \<subseteq> set files0 \<Longrightarrow> merge_inv ls fs0 p target fs \<Longrightarrow> touch_near target fs0 fs
    \<Longrightarrow> copy_files tot root (target @ drop (length p) root) files (fs, dn, evs) = (None, (fs', dn', evs'))
    \<Longrightarrow> merge_inv ls fs0 p target fs' \<and> touch_near target fs0 fs' \<and> carries ls fs0 p target fs fs'
        \<and> (\<forall>f\<in>set files. lookup fs' (target @ drop (length p) root @ [f]) = lookup fs0 (root @ [f]))"
proof (induction files arbitrary: fs dn evs)
  case Nil
  then show ?case by (simp add: carries_refl)
next
  case (Cons f files)
  let ?td = "target @ drop (length p) root"
  have f0: "f \<in> set files0" and sub: "set files \<subseteq> set files0" using Cons.prems(1) by auto
  show ?case
  proof (cases "copy2 fs (root @ [f]) (?td @ [f])")
    case (Inl e)
    then show ?thesis using Cons.prems(4) by simp
  next
    case (Inr fs1)
    have c: "copy2 fs (root @ [f]) (target @ drop (length p) root @ [f]) = Inr fs1"
      using Inr by simp
    have st: "merge_inv ls fs0 p target fs1 \<and> carries ls fs0 p target fs fs1
       \<and> lookup fs1 (target @ drop (length p) root @ [f]) = lookup fs0 (root @ [f])"
      using copy_step_inv [OF a1 a2 Cons.prems(2) Cons.prems(3) w f0 c] .
    have "touch_near target fs fs1" using copy2_touch [OF Inr, of target] by simp
    then have tn1: "touch_near target fs0 fs1" using Cons.prems(3) touch_near_trans by blast
    have run1: "copy_files tot root ?td files
         (fs1, dn + 1, evs @ [(int ((dn + 1) * 100 div tot), show_path (root @ [f]))])
         = (None, (fs', dn', evs'))"
      using Cons.prems(4) Inr by simp
    have ih: "merge_inv ls fs0 p target fs' \<and> touch_near target fs0 fs' \<and> carries ls fs0 p target fs1 fs'
        \<and> (\<forall>f\<in>set files. lookup fs' (target @ drop (length p) root @ [f]) = lookup fs0 (root @ [f]))"
      using Cons.IH [OF sub _ tn1 run1] st by simp
    have ql: "target @ drop (length p) root @ [f] \<in> set (landing ls fs0 p target)"
      using w f0 landing_iff by blast
    have src: "p @ drop (length target) (target @ drop (length p) root @ [f]) = root @ [f]"
      by (rule landing_source [OF w])
    have "lookup fs' (target @ drop (length p) root @ [f]) = lookup fs0 (root @ [f])"
      using ih st ql src unfolding carries_def by metis
    then show ?thesis using ih st carries_trans by auto
  qed
qed

lemma merge_walk_merge:
  assumes a1: "outside target p"
    and a2: "\<forall>q\<in>set (landing ls fs0 p target). \<not> is_dir fs0 q"
  shows "set ts \<subseteq> set (walk ls fs0 p) \<Longrightarrow> merge_inv ls fs0 p target fs \<Longrightarrow> touch_near target fs0 fs
    \<Longrightarrow> merge_walk tot p target ts (fs, dn, evs) = (None, (fs', dn', evs'))
    \<Longrightarrow> merge_inv ls fs0 p target fs' \<and> touch_near target fs0 fs' \<and> carries ls fs0 p target fs fs'
        \<and> (\<forall>(root, dirs, files)\<in>set ts.
              is_dir fs' (target @ drop (length p) root)
              \<and> (\<forall>f\<in>set files. lookup fs' (target @ drop (length p) root @ [f]) = lookup fs0 (root @ [f])))"
proof (induction ts arbitrary: fs dn evs)
  case Nil
  then show ?case by (simp add: carries_refl)
next
  case (Cons t ts)
  obtain root dirs files where t: "t = (root, dirs, files)" by (cases t) auto
  let ?td = "target @ drop (length p) root"
  have w: "(root, dirs, files) \<in> set (walk ls fs0 p)" and sub: "set ts \<subseteq> set (walk ls fs0 p)"
    using Cons.prems(1) t by auto
  show ?case
  proof (cases "mkdir_p fs ?td")
    case (Inl e)
    then show ?thesis using Cons.prems(4) t by simp
  next
    case (Inr fs1)
    have ms: "merge_inv ls fs0 p target fs1 \<and> carries ls fs0 p target fs fs1 \<and> is_dir fs1 ?td"
      using mkdir_step [OF Cons.prems(2) w Inr] .
    have "touch_near target fs fs1" using mkdir_p_touch [OF Inr, of target] by (simp add: near_def)
    then have tn1: "touch_near target fs0 fs1" using Cons.prems(3) touch_near_trans by blast
    obtain r st2 where cf: "copy_files tot root ?td files (fs1, dn, evs) = (r, st2)"
      by (cases "copy_files tot root ?td files (fs1, dn, evs)") auto
    obtain fs2 dn2 evs2 where st2: "st2 = (fs2, dn2, evs2)" by (cases st2) auto
    show ?thesis
    proof (cases r)
      case (Some e)
      then show ?thesis using Cons.prems(4) t Inr cf by simp
    next
      case None
      have cf': "copy_files tot root ?td files (fs1, dn, evs) = (None, (fs2, dn2, evs2))"
        using cf None st2 by simp
      have cs: "merge_inv ls fs0 p target fs2 \<and> touch_near target fs0 fs2 \<and> carries ls fs0 p target fs1 fs2
        \<and> (\<forall>f\<in>set files. lookup fs2 (target @ drop (length p) root @ [f]) = lookup fs0 (root @ [f]))"
        using copy_files_merge [OF a1 a2 w subset_refl _ tn1 cf'] ms by simp
      have run2: "merge_walk tot p target ts (fs2, dn2, evs2) = (None, (fs', dn', evs'))"
        using Cons.prems(4) t Inr cf None st2 by simp
      have ih: "merge_inv ls fs0 p target fs' \<and> touch_near target fs0 fs' \<and> carries ls fs0 p target fs2 fs'
        \<and> (\<forall>(root, dirs, files)\<in>set ts.
              is_dir fs' (target @ drop (length p) root)
              \<and> (\<forall>f\<in>set files. lookup fs' (target @ drop (length p) root @ [f]) = lookup fs0 (root @ [f])))"
        using Cons.IH [OF sub _ _ run2] cs by simp
      have c12: "carries ls fs0 p target fs fs2"
        using ms cs carries_trans [of ls fs0 p target fs fs1 fs2] by simp
      have c02: "carries ls fs0 p target fs fs'"
        using c12 ih carries_trans [of ls fs0 p target fs fs2 fs'] by simp
      have d1: "is_dir fs' ?td" using ms cs ih unfolding carries_def by blast
      have d2: "\<forall>f\<in>set files. lookup fs' (target @ drop (length p) root @ [f]) = lookup fs0 (root @ [f])"
      proof
        fix f assume f: "f \<in> set files"
        have ql: "target @ drop (length p) root @ [f] \<in> set (landing ls fs0 p target)"
          using w f landing_iff by blast
        have src: "p @ drop (length target) (target @ drop (length p) root @ [f]) = root @ [f]"
          by (rule landing_source [OF w])
        have "lookup fs2 (target @ drop (length p) root @ [f]) = lookup fs0 (root @ [f])"
          using cs f by simp
        then show "lookup fs' (target @ drop (length p) root @ [f]) = lookup fs0 (root @ [f])"
          using ih ql src unfolding carries_def by metis
      qed
      show ?thesis using ih c02 d1 d2 t by simp
    qed
  qed
qed

text \<open>
  What holds of every merge copy that completes: each directory that the walk of the
  source lists exists below the destination entry afterwards, and nothing that existed
  before has disappeared or changed its kind.
\<close>

lemma merge_walk_dirs:
  "merge_walk tot p target ts (fs, dn, evs) = (None, (fs', dn', evs'))
   \<Longrightarrow> \<forall>(root, dirs, files)\<in>set ts. is_dir fs' (target @ drop (length p) root)"
proof (induction ts arbitrary: fs dn evs)
  case Nil
  then show ?case by simp
next
  case (Cons t ts)
  obtain root dirs files where t: "t = (root, dirs, files)" by (cases t) auto
  let ?td = "target @ drop (length p) root"
  show ?case
  proof (cases "mkdir_p fs ?td")
    case (Inl e)
    then show ?thesis using Cons.prems t by simp
  next
    case (Inr fs1)
    have d1: "is_dir fs1 ?td" using mkdir_p_is_dir [OF Inr] .
    obtain r st2 where cf: "copy_files tot root ?td files (fs1, dn, evs) = (r, st2)"
      by (cases "copy_files tot root ?td files (fs1, dn, evs)") auto
    obtain fs2 dn2 evs2 where st2: "st2 = (fs2, dn2, evs2)" by (cases st2) auto
    show ?thesis
    proof (cases r)
      case (Some e)
      then show ?thesis using Cons.prems t Inr cf by simp
    next
      case None
      have "touch_near ?td fs1 fs2"
        using copy_files_count [of tot root ?td files fs1 dn evs fs2 dn2 evs2 ?td] cf None st2 by simp
      then have d2: "is_dir fs2 ?td" using d1 by (simp add: touch_near_def)
      have run2: "merge_walk tot p target ts (fs2, dn2, evs2) = (None, (fs', dn', evs'))"
        using Cons.prems t Inr cf None st2 by simp
      have "touch_near target fs2 fs'"
        using merge_walk_count [of tot p target ts fs2 dn2 evs2 fs' dn' evs' target] run2 by simp
      then have "is_dir fs' ?td" using d2 by (simp add: touch_near_def)
      then show ?thesis using Cons.IH [OF run2] t by simp
    qed
  qed
qed

lemma merge_copy_directories:
  assumes r: "run ls Copy [p] dest fs = Some (evs, Completed, fs')"
    and d: "is_dir fs p"
    and ex: "fs_exists fs (dest @ basename p)"
  shows "(\<forall>(root, dirs, files)\<in>set (walk ls fs p).
            is_dir fs' ((dest @ basename p) @ drop (length p) root))
     \<and> (\<forall>q. fs_exists fs q \<longrightarrow> fs_exists fs' q)
     \<and> (\<forall>q. is_dir fs q \<longrightarrow> is_dir fs' q)
     \<and> (\<forall>q. is_file fs q \<longrightarrow> is_file fs' q)"
proof -
  let ?t = "dest @ basename p"
  let ?tot = "total_files ls fs [p]"
  obtain st' where ti: "transfer_item ls Copy ?tot dest p (fs, 0, []) = Some (None, st')"
      and st': "st' = (fs', fst (snd st'), evs)"
    using r by (auto simp: run_def split: option.splits prod.splits)
  have mw: "merge_walk ?tot p ?t (walk ls fs p) (fs, 0, []) = (None, (fs', fst (snd st'), evs))"
    using ti st' d ex by (auto simp: Let_def split: if_splits)
  have "touch_near ?t fs fs'"
    using merge_walk_count [of ?tot p ?t "walk ls fs p" fs 0 "[]" fs' "fst (snd st')" evs ?t] mw
    by simp
  then show ?thesis using merge_walk_dirs [OF mw] by (simp add: touch_near_def)
qed

text \<open>
  What holds besides when the source lies outside the destination entry and no landing
  place of a listed source file is an existing directory: every listed file of the
  source is at its landing place with the content of the source file, and every entry
  that existed before and is no landing place of a source file is as it was.
\<close>

lemma merge_copy_in_place:
  assumes r: "run ls Copy [p] dest fs = Some (evs, Completed, fs')"
    and d: "is_dir fs p"
    and ex: "fs_exists fs (dest @ basename p)"
    and a1: "outside (dest @ basename p) p"
    and a2: "\<forall>q\<in>set (landing ls fs p (dest @ basename p)). \<not> is_dir fs q"
  shows "(\<forall>(root, dirs, files)\<in>set (walk ls fs p).
            \<forall>f\<in>set files.
              lookup fs' ((dest @ basename p) @ drop (length p) root @ [f]) = lookup fs (root @ [f]))
     \<and> (\<forall>q. fs_exists fs q \<and> q \<notin> set (landing ls fs p (dest @ basename p))
            \<longrightarrow> lookup fs' q = lookup fs q)"
proof -
  let ?t = "dest @ basename p"
  let ?tot = "total_files ls fs [p]"
  obtain st' where ti: "transfer_item ls Copy ?tot dest p (fs, 0, []) = Some (None, st')"
      and st': "st' = (fs', fst (snd st'), evs)"
    using r by (auto simp: run_def split: option.splits prod.splits)
  have mw: "merge_walk ?tot p ?t (walk ls fs p) (fs, 0, []) = (None, (fs', fst (snd st'), evs))"
    using ti st' d ex by (auto simp: Let_def split: if_splits)
  have i0: "merge_inv ls fs p ?t fs" by (simp add: merge_inv_def)
  have res: "merge_inv ls fs p ?t fs' \<and> touch_near ?t fs fs' \<and> carries ls fs p ?t fs fs'
        \<and> (\<forall>(root, dirs, files)\<in>set (walk ls fs p).
              is_dir fs' (?t @ drop (length p) root)
              \<and> (\<forall>f\<in>set files. lookup fs' (?t @ drop (length p) root @ [f]) = lookup fs (root @ [f])))"
    using merge_walk_merge [OF a1 a2 subset_refl i0 touch_near_refl mw] .
  have keep: "\<forall>q. fs_exists fs q \<and> q \<notin> set (landing ls fs p ?t) \<longrightarrow> lookup fs' q = lookup fs q"
  proof (intro allI impI)
    fix q assume h: "fs_exists fs q \<and> q \<notin> set (landing ls fs p ?t)"
    have "lookup fs' q = lookup fs q
        \<or> (q \<in> set (landing ls fs p ?t) \<and> lookup fs' q = lookup fs (p @ drop (length ?t) q))
        \<or> (lookup fs q = None \<and> lookup fs' q = Some Dir \<and> (\<exists>d\<in>set (created ls fs p ?t). prefix q d))"
      using res unfolding merge_inv_def by blast
    then show "lookup fs' q = lookup fs q" using h by (auto simp: fs_exists_def)
  qed
  have place: "\<forall>(root, dirs, files)\<in>set (walk ls fs p).
            \<forall>f\<in>set files. lookup fs' (?t @ drop (length p) root @ [f]) = lookup fs (root @ [f])"
    using res by fastforce
  show ?thesis using place keep by simp
qed


text \<open>
  Claim C2, evaluated on the code, in two runs. First run: the source directory holds
  the file \<open>f\<close>, and the existing destination directory holds a \<^emph>\<open>directory\<close>
  \<open>f\<close> with a file \<open>f\<close> in it. \<^verbatim>\<open>copy2\<close> puts the source file into that
  directory: the source file is not copied into its place, and the destination file
  \<^verbatim>\<open>/dst/T/f/f\<close>, to which no source entry corresponds, is overwritten. Second
  run: the source directory holds a subdirectory \<open>s\<close> that is a link and a
  subdirectory \<open>u\<close> that cannot be listed. The walk enters neither, so the run
  completes, having created neither \<^verbatim>\<open>/dst/T/s\<close> nor \<^verbatim>\<open>/dst/T/u\<close> and
  having copied none of their files.
\<close>

theorem merge_misplaces_file:
  "(run no_skips Copy [[''src'', ''T'']] [''dst'']
     [([''src''], Dir), ([''src'', ''T''], Dir), ([''src'', ''T'', ''f''], File ''new''),
      ([''dst''], Dir), ([''dst'', ''T''], Dir), ([''dst'', ''T'', ''f''], Dir),
      ([''dst'', ''T'', ''f'', ''f''], File ''old'')]
   = Some ([(100, ''/src/T/f'')], Completed,
      [([''src''], Dir), ([''src'', ''T''], Dir), ([''src'', ''T'', ''f''], File ''new''),
       ([''dst''], Dir), ([''dst'', ''T''], Dir), ([''dst'', ''T'', ''f''], Dir),
       ([''dst'', ''T'', ''f'', ''f''], File ''new'')])
    \<and> lookup [([''src''], Dir), ([''src'', ''T''], Dir), ([''src'', ''T'', ''f''], File ''new''),
      ([''dst''], Dir), ([''dst'', ''T''], Dir), ([''dst'', ''T'', ''f''], Dir),
      ([''dst'', ''T'', ''f'', ''f''], File ''old'')] [''src'', ''T'', ''f'', ''f''] = None)
   \<and> run \<lparr>unreadable = (\<lambda>q. q = [''src'', ''T'', ''u'']),
           is_link = (\<lambda>q. q = [''src'', ''T'', ''s''])\<rparr>
       Copy [[''src'', ''T'']] [''dst'']
     [([''src''], Dir), ([''src'', ''T''], Dir), ([''src'', ''T'', ''a''], File ''new a''),
      ([''src'', ''T'', ''s''], Dir), ([''src'', ''T'', ''s'', ''b''], File ''new b''),
      ([''src'', ''T'', ''u''], Dir), ([''src'', ''T'', ''u'', ''c''], File ''new c''),
      ([''dst''], Dir), ([''dst'', ''T''], Dir)]
   = Some ([(100, ''/src/T/a'')], Completed,
      [([''src''], Dir), ([''src'', ''T''], Dir), ([''src'', ''T'', ''a''], File ''new a''),
       ([''src'', ''T'', ''s''], Dir), ([''src'', ''T'', ''s'', ''b''], File ''new b''),
       ([''src'', ''T'', ''u''], Dir), ([''src'', ''T'', ''u'', ''c''], File ''new c''),
       ([''dst''], Dir), ([''dst'', ''T''], Dir), ([''dst'', ''T'', ''a''], File ''new a'')])"
  by code_simp


section \<open>The trash: the claims\<close>

text \<open>The second half of claim C4: without a record, restore moves nothing.\<close>

lemma restore_without_record:
  "lookup fs (trash_info env @ [name_of file_path @ ''.trashinfo'']) = None
   \<Longrightarrow> restore_from_trash env file_path fs = Some (None, fs, [NoRestoreInfo])"
  by (simp add: restore_from_trash_def)

text \<open>
  The round trip on the paths for which it works: a regular file outside the trash,
  whose directory exists, and whose path is read back from the text written to the
  record (no line break in that text, and stripping and parsing it gives the path
  again). After \<open>send2trash\<close> and \<open>restore_from_trash\<close> the file is at its
  original path with its content, and neither the record nor the stored item is left.
\<close>

lemma map_of_rename_tree:
  assumes "\<not> prefix src dst" "\<not> prefix dst src"
  shows "map_of (rename_tree src dst fs) k =
     (if prefix dst k then map_of fs (src @ drop (length dst) k)
      else if prefix src k then None else map_of fs k)"
proof (induction fs)
  case Nil
  show ?case by (simp add: rename_tree_def)
next
  case (Cons x fs)
  obtain q e where x: "x = (q, e)" by (cases x) auto
  have r: "rename_tree src dst (x # fs) =
      (if prefix src q then (dst @ drop (length src) q, e) # rename_tree src dst fs
       else if prefix dst q then rename_tree src dst fs
       else (q, e) # rename_tree src dst fs)"
    by (simp add: rename_tree_def x)
  show ?case
  proof (cases "prefix src q")
    case True
    then obtain r' where q: "q = src @ r'" by (auto simp: prefix_def)
    have nd: "\<not> prefix dst q"
      using assms True prefix_same_cases by blast
    show ?thesis
    proof (cases "prefix dst k")
      case dk: True
      then obtain k' where k: "k = dst @ k'" by (auto simp: prefix_def)
      show ?thesis using r True Cons.IH x q k by auto
    next
      case dk: False
      have "dst @ drop (length src) q \<noteq> k" using dk by auto
      moreover have "prefix src k \<or> q \<noteq> k" using True by auto
      ultimately show ?thesis using r True Cons.IH x dk by auto
    qed
  next
    case False
    show ?thesis
    proof (cases "prefix dst q")
      case True
      have "q \<noteq> src @ drop (length dst) k" using False by auto
      moreover have "\<not> prefix dst k \<Longrightarrow> q \<noteq> k" using True by auto
      ultimately show ?thesis using r False True Cons.IH x by auto
    next
      case nd: False
      have a: "prefix dst k \<Longrightarrow> q \<noteq> k" using nd by auto
      have b: "q \<noteq> src @ drop (length dst) k" using False by auto
      have c: "prefix src k \<Longrightarrow> q \<noteq> k" using False by auto
      show ?thesis using r False nd Cons.IH x a b c by auto
    qed
  qed
qed

lemma lookup_rename_tree:
  assumes "\<not> prefix src dst" "\<not> prefix dst src"
  shows "lookup (rename_tree src dst fs) k =
     (if k = [] then Some Dir
      else if prefix dst k then lookup fs (src @ drop (length dst) k)
      else if prefix src k then None else lookup fs k)"
proof -
  have "src \<noteq> []" using assms(1) by auto
  then show ?thesis
    using map_of_rename_tree [OF assms, of fs k] by (simp add: lookup_def)
qed

lemma map_of_remove_tree:
  "map_of (remove_tree q fs) k = (if prefix q k then None else map_of fs k)"
  by (induction fs) (auto simp: remove_tree_def)

lemma lookup_remove_tree:
  "k \<noteq> [] \<Longrightarrow> lookup (remove_tree q fs) k = (if prefix q k then None else lookup fs k)"
  by (simp add: lookup_def map_of_remove_tree)

lemma universal_newlines_plain:
  "CHR 0x0D \<notin> set a \<Longrightarrow> universal_newlines (a @ b) = a @ universal_newlines b"
proof (induction a rule: universal_newlines.induct)
  case 1
  show ?case by simp
next
  case (2 c)
  then show ?case by (cases b) auto
next
  case (3 c d cs)
  then show ?case by auto
qed

lemma record_path_line:
  assumes "CHR 0x0A \<notin> set t" "CHR 0x0D \<notin> set t"
  shows "find (prefix ''Path='') (text_lines (universal_newlines (trashinfo_record t date)))
         = Some (''Path='' @ t)"
proof -
  let ?a = "''[Trash Info]'' @ nl @ ''Path='' @ t @ nl"
  let ?b = "''DeletionDate='' @ date @ nl"
  have cr: "CHR 0x0D \<notin> set ?a" using assms(2) by (simp add: nl_def)
  have "universal_newlines (trashinfo_record t date) = ?a @ universal_newlines ?b"
    using universal_newlines_plain [OF cr, of ?b] by (simp add: trashinfo_record_def)
  moreover have "text_lines (?a @ universal_newlines ?b)
      = ''[Trash Info]'' # (''Path='' @ t) # text_lines (universal_newlines ?b)"
  proof -
    have l1: "CHR 0x0A \<notin> set ''[Trash Info]''" by simp
    have l2: "CHR 0x0A \<notin> set (''Path='' @ t)" using assms(1) by simp
    show ?thesis
      using text_lines_line [OF l1, of "(''Path='' @ t) @ CHR 0x0A # universal_newlines ?b"]
            text_lines_line [OF l2, of "universal_newlines ?b"]
      by (simp add: nl_def)
  qed
  ultimately show ?thesis by simp
qed

lemma mkdir_p_keeps: "mkdir_p fs d = Inr fs' \<Longrightarrow> lookup fs q \<noteq> None \<Longrightarrow> lookup fs' q = lookup fs q"
  using mkdir_p_pointwise [of fs d fs' q] by auto

lemma mkdir_p_new: "mkdir_p fs d = Inr fs' \<Longrightarrow> \<not> prefix q d \<Longrightarrow> lookup fs' q = lookup fs q"
  using mkdir_p_pointwise [of fs d fs' q] by auto

lemma rename_file:
  assumes "lookup fs src = Some (File c)" "lookup fs dst = None" "is_dir fs (butlast dst)"
    and "\<not> prefix src dst" "\<not> prefix dst src"
  shows "move ls fs src dst = (None, rename_tree src dst fs)"
proof -
  have ne: "src \<noteq> []" "dst \<noteq> []" "src \<noteq> dst" using assms(4,5) by auto
  have nd: "\<not> is_dir fs dst" using assms(2) by (simp add: is_dir_def)
  have ex: "fs_exists fs (butlast dst)" using assms(3) by (simp add: is_dir_def fs_exists_def)
  have "os_rename fs src dst = Inr (rename_tree src dst fs)"
    using assms(1,2,3) ne ex by (simp add: os_rename_def)
  then show ?thesis using nd by (simp add: move_def)
qed

lemma restore_round_trip:
  assumes c: "lookup fs p = Some (File content)"
    and par: "is_dir fs (butlast p)"
    and out: "\<not> prefix p (trash_root env)" "\<not> prefix (trash_root env) p"
    and t1: "path_of (cwd env) (py_strip (path_text p)) = Some p"
    and t2: "CHR 0x0A \<notin> set (path_text p)" "CHR 0x0D \<notin> set (path_text p)"
    and s: "send2trash env path_text date p fs = Some (None, fs1)"
  shows "\<exists>fs2. restore_from_trash env (trash_files env @ [name_of p]) fs1 = Some (None, fs2, [Restored p])
           \<and> lookup fs2 p = Some (File content)
           \<and> lookup fs2 (trash_info env @ [name_of p @ ''.trashinfo'']) = None
           \<and> lookup fs2 (trash_files env @ [name_of p]) = None"
proof -
  let ?root = "trash_root env"
  let ?tf = "trash_files env"
  let ?ti = "trash_info env"
  let ?stored = "?tf @ [name_of p]"
  let ?info = "?ti @ [name_of p @ ''.trashinfo'']"
  let ?rec = "trashinfo_record (path_text p) date"
  have tf: "?tf = ?root @ [''files'']" and ti: "?ti = ?root @ [''info'']"
    by (simp_all add: trash_files_def trash_info_def trash_root_def)
  have pne: "p \<noteq> []" using c by (auto simp: lookup_def)
  \<comment> \<open>the places in the trash and the file are apart\<close>
  have rs: "prefix ?root ?stored" "prefix ?root ?info" "prefix ?root ?tf" "prefix ?root ?ti"
    by (simp_all add: tf ti)
  have apart: "\<And>k. prefix ?root k \<Longrightarrow> \<not> prefix p k \<and> \<not> prefix k p"
  proof -
    fix k assume k: "prefix ?root k"
    have "\<not> prefix p k" using k out prefix_same_cases by blast
    moreover have "\<not> prefix k p" using k out(2) prefix_order.trans by blast
    ultimately show "\<not> prefix p k \<and> \<not> prefix k p" by simp
  qed
  have si: "\<not> prefix ?stored ?info" "\<not> prefix ?info ?stored" "?stored \<noteq> ?info"
    by (auto simp: tf ti)
  have bp: "\<not> prefix ?stored (butlast p)" "\<not> prefix p (butlast p)" "butlast p \<noteq> ?info"
  proof -
    have pb: "prefix (butlast p) p" by (simp add: prefix_def) (metis append_butlast_last_id pne)
    show "\<not> prefix ?stored (butlast p)"
      using apart [OF rs(1)] pb prefix_order.trans by blast
    show "\<not> prefix p (butlast p)"
      using pne by (metis append_butlast_last_id prefix_order.antisym pb not_Cons_self2 self_append_conv)
    show "butlast p \<noteq> ?info" using apart [OF rs(2)] pb by auto
  qed
  \<comment> \<open>the steps of \<open>send2trash\<close>\<close>
  have n0: "lookup fs ?stored = None" "lookup fs ?info = None"
    using s by (auto simp: send2trash_def Let_def fs_exists_def split: if_splits)
  obtain fsa fsb fsc where ma: "mkdir_p fs ?tf = Inr fsa" and mb: "mkdir_p fsa ?ti = Inr fsb"
      and mv: "move (dir_listing env) fsb p ?stored = (None, fsc)"
      and f1: "fs1 = AList.update ?info (File ?rec) fsc"
    using s by (auto simp: send2trash_def Let_def split: if_splits sum.splits prod.splits option.splits)
  have ns: "\<not> prefix ?stored ?tf" "\<not> prefix ?stored ?ti" "\<not> prefix ?info ?tf" "\<not> prefix ?info ?ti"
    by (auto simp: tf ti)
  have b_p: "lookup fsb p = Some (File content)"
    using mkdir_p_keeps [OF mb, of p] mkdir_p_keeps [OF ma, of p] c by simp
  have b_par: "is_dir fsb (butlast p)"
    using mkdir_p_keeps [OF mb, of "butlast p"] mkdir_p_keeps [OF ma, of "butlast p"] par
    by (simp add: is_dir_def)
  have b_st: "lookup fsb ?stored = None"
    using mkdir_p_new [OF mb ns(2)] mkdir_p_new [OF ma ns(1)] n0(1) by simp
  have b_in: "lookup fsb ?info = None"
    using mkdir_p_new [OF mb ns(4)] mkdir_p_new [OF ma ns(3)] n0(2) by simp
  have b_tf: "is_dir fsb ?tf"
    using mkdir_p_is_dir [OF ma] mkdir_p_keeps [OF mb, of ?tf] by (simp add: is_dir_def)
  have ap_s: "\<not> prefix p ?stored" "\<not> prefix ?stored p" using apart [OF rs(1)] by simp_all
  have ap_i: "\<not> prefix p ?info" "\<not> prefix ?info p" using apart [OF rs(2)] by simp_all
  have "move (dir_listing env) fsb p ?stored = (None, rename_tree p ?stored fsb)"
    using rename_file [OF b_p b_st _ ap_s] b_tf by simp
  then have fc: "fsc = rename_tree p ?stored fsb" using mv by simp
  have lc: "\<And>k. lookup fsc k =
     (if k = [] then Some Dir
      else if prefix ?stored k then lookup fsb (p @ drop (length ?stored) k)
      else if prefix p k then None else lookup fsb k)"
    unfolding fc by (rule lookup_rename_tree [OF ap_s])
  have ine: "?info \<noteq> []" by simp
  have l1: "\<And>k. lookup fs1 k = (if k = ?info then Some (File ?rec) else lookup fsc k)"
    unfolding f1 using lookup_update [OF ine] by simp
  have one_st: "lookup fs1 ?stored = Some (File content)"
    using l1 [of ?stored] lc [of ?stored] si(3) b_p by simp
  have one_p: "lookup fs1 p = None"
    using l1 [of p] lc [of p] ap_i ap_s pne by auto
  have one_par: "is_dir fs1 (butlast p)"
    using l1 [of "butlast p"] lc [of "butlast p"] bp b_par by (auto simp: is_dir_def lookup_def)
  have one_in: "lookup fs1 ?info = Some (File ?rec)" using l1 by simp
  \<comment> \<open>the steps of \<open>restore_from_trash\<close>\<close>
  have nm: "name_of ?stored = name_of p" by (simp add: name_of_def)
  have line: "find (prefix ''Path='') (text_lines (universal_newlines ?rec)) = Some (''Path='' @ path_text p)"
    using record_path_line [OF t2] .
  have mv2: "move (dir_listing env) fs1 ?stored p = (None, rename_tree ?stored p fs1)"
    using rename_file [OF one_st one_p one_par ap_s(2) ap_s(1)] .
  let ?fsd = "rename_tree ?stored p fs1"
  have ld: "\<And>k. lookup ?fsd k =
     (if k = [] then Some Dir
      else if prefix p k then lookup fs1 (?stored @ drop (length p) k)
      else if prefix ?stored k then None else lookup fs1 k)"
    by (rule lookup_rename_tree [OF ap_s(2) ap_s(1)])
  have d_in: "lookup ?fsd ?info = Some (File ?rec)"
    using ld [of ?info] ap_i(1) si(1) one_in by simp
  have d_p: "lookup ?fsd p = Some (File content)"
    using ld [of p] pne one_st by simp
  have d_st: "lookup ?fsd ?stored = None"
    using ld [of ?stored] ap_s(1) by simp
  let ?fs2 = "remove_tree ?info ?fsd"
  have ul: "unlink ?fsd ?info = Inr ?fs2" using d_in by (simp add: unlink_def)
  have r: "restore_from_trash env ?stored fs1 = Some (None, ?fs2, [Restored p])"
    unfolding restore_from_trash_def Let_def nm
    using one_in line t1 one_p mv2 ul by (simp add: fs_exists_def)
  have "lookup ?fs2 p = Some (File content)"
    using lookup_remove_tree [OF pne, of ?info ?fsd] ap_i(2) d_p by simp
  moreover have "lookup ?fs2 ?info = None"
    using lookup_remove_tree [OF ine, of ?info ?fsd] by simp
  moreover have "lookup ?fs2 ?stored = None"
    using lookup_remove_tree [of ?stored ?info ?fsd] si(2) d_st by simp
  ultimately show ?thesis using r by blast
qed

text \<open>
  Claim C4, evaluated on the code. The file \<^verbatim>\<open>/home/u/my file.txt\<close> is sent
  to the trash, its path written to the record escaped as in a URL, and restored: it
  ends at \<^verbatim>\<open>/home/u/my%20file.txt\<close>, since the text of the record is not
  decoded. The file \<^verbatim>\<open>/home/u/a \<close>, whose name ends with a blank, is sent to
  the trash with its path written as it is, and restored: it ends at
  \<^verbatim>\<open>/home/u/a\<close>, since the text of the record is stripped of white space. In
  both cases nothing is at the original path afterwards, and the record is gone.
\<close>

theorem restore_misses_original_path:
  "delete_selected \<lparr>home = [''home'', ''u''], cwd = [''home'', ''u''], overwrite_yes = False,
       dir_listing = no_skips\<rparr>
     (\<lambda>p. url_quote (show_path p)) ''2024-05-01T10:00:00'' [[''home'', ''u'', ''my file.txt'']]
     [([''home''], Dir), ([''home'', ''u''], Dir), ([''home'', ''u'', ''my file.txt''], File ''text'')]
   = Some ([([''home''], Dir), ([''home'', ''u''], Dir),
            ([''home'', ''u'', ''.local'', ''share'', ''Trash'', ''files'', ''my file.txt''], File ''text''),
            ([''home'', ''u'', ''.local''], Dir), ([''home'', ''u'', ''.local'', ''share''], Dir),
            ([''home'', ''u'', ''.local'', ''share'', ''Trash''], Dir),
            ([''home'', ''u'', ''.local'', ''share'', ''Trash'', ''files''], Dir),
            ([''home'', ''u'', ''.local'', ''share'', ''Trash'', ''info''], Dir),
            ([''home'', ''u'', ''.local'', ''share'', ''Trash'', ''info'', ''my file.txt.trashinfo''],
             File (''[Trash Info]'' @ nl @ ''Path=/home/u/my%20file.txt'' @ nl
                   @ ''DeletionDate=2024-05-01T10:00:00'' @ nl))], [])
   \<and> restore_from_trash \<lparr>home = [''home'', ''u''], cwd = [''home'', ''u''], overwrite_yes = False,
       dir_listing = no_skips\<rparr>
       [''home'', ''u'', ''.local'', ''share'', ''Trash'', ''files'', ''my file.txt'']
       [([''home''], Dir), ([''home'', ''u''], Dir),
        ([''home'', ''u'', ''.local'', ''share'', ''Trash'', ''files'', ''my file.txt''], File ''text''),
        ([''home'', ''u'', ''.local''], Dir), ([''home'', ''u'', ''.local'', ''share''], Dir),
        ([''home'', ''u'', ''.local'', ''share'', ''Trash''], Dir),
        ([''home'', ''u'', ''.local'', ''share'', ''Trash'', ''files''], Dir),
        ([''home'', ''u'', ''.local'', ''share'', ''Trash'', ''info''], Dir),
        ([''home'', ''u'', ''.local'', ''share'', ''Trash'', ''info'', ''my file.txt.trashinfo''],
         File (''[Trash Info]'' @ nl @ ''Path=/home/u/my%20file.txt'' @ nl
               @ ''DeletionDate=2024-05-01T10:00:00'' @ nl))]
     = Some (None,
        [([''home''], Dir), ([''home'', ''u''], Dir),
         ([''home'', ''u'', ''my%20file.txt''], File ''text''),
         ([''home'', ''u'', ''.local''], Dir), ([''home'', ''u'', ''.local'', ''share''], Dir),
         ([''home'', ''u'', ''.local'', ''share'', ''Trash''], Dir),
         ([''home'', ''u'', ''.local'', ''share'', ''Trash'', ''files''], Dir),
         ([''home'', ''u'', ''.local'', ''share'', ''Trash'', ''info''], Dir)],
        [Restored [''home'', ''u'', ''my%20file.txt'']])
   \<and> delete_selected \<lparr>home = [''home'', ''u''], cwd = [''home'', ''u''], overwrite_yes = False,
       dir_listing = no_skips\<rparr>
       show_path ''2024-05-01T10:00:00'' [[''home'', ''u'', ''a '']]
       [([''home''], Dir), ([''home'', ''u''], Dir), ([''home'', ''u'', ''a ''], File ''data'')]
     = Some ([([''home''], Dir), ([''home'', ''u''], Dir),
            ([''home'', ''u'', ''.local'', ''share'', ''Trash'', ''files'', ''a ''], File ''data''),
            ([''home'', ''u'', ''.local''], Dir), ([''home'', ''u'', ''.local'', ''share''], Dir),
            ([''home'', ''u'', ''.local'', ''share'', ''Trash''], Dir),
            ([''home'', ''u'', ''.local'', ''share'', ''Trash'', ''files''], Dir),
            ([''home'', ''u'', ''.local'', ''share'', ''Trash'', ''info''], Dir),
            ([''home'', ''u'', ''.local'', ''share'', ''Trash'', ''info'', ''a .trashinfo''],
             File (''[Trash Info]'' @ nl @ ''Path=/home/u/a '' @ nl
                   @ ''DeletionDate=2024-05-01T10:00:00'' @ nl))], [])
   \<and> restore_from_trash \<lparr>home = [''home'', ''u''], cwd = [''home'', ''u''], overwrite_yes = False,
       dir_listing = no_skips\<rparr>
       [''home'', ''u'', ''.local'', ''share'', ''Trash'', ''files'', ''a '']
       [([''home''], Dir), ([''home'', ''u''], Dir),
        ([''home'', ''u'', ''.local'', ''share'', ''Trash'', ''files'', ''a ''], File ''data''),
        ([''home'', ''u'', ''.local''], Dir), ([''home'', ''u'', ''.local'', ''share''], Dir),
        ([''home'', ''u'', ''.local'', ''share'', ''Trash''], Dir),
        ([''home'', ''u'', ''.local'', ''share'', ''Trash'', ''files''], Dir),
        ([''home'', ''u'', ''.local'', ''share'', ''Trash'', ''info''], Dir),
        ([''home'', ''u'', ''.local'', ''share'', ''Trash'', ''info'', ''a .trashinfo''],
         File (''[Trash Info]'' @ nl @ ''Path=/home/u/a '' @ nl
               @ ''DeletionDate=2024-05-01T10:00:00'' @ nl))]
     = Some (None,
        [([''home''], Dir), ([''home'', ''u''], Dir),
         ([''home'', ''u'', ''a''], File ''data''),
         ([''home'', ''u'', ''.local''], Dir), ([''home'', ''u'', ''.local'', ''share''], Dir),
         ([''home'', ''u'', ''.local'', ''share'', ''Trash''], Dir),
         ([''home'', ''u'', ''.local'', ''share'', ''Trash'', ''files''], Dir),
         ([''home'', ''u'', ''.local'', ''share'', ''Trash'', ''info''], Dir)],
        [Restored [''home'', ''u'', ''a'']])"
  by code_simp

end
